theory Spec2Isabelle
  imports Complex_Main
begin

section \<open>Stroke matcher: data model\<close>

text \<open>
  The stroke matcher of \<^verbatim>\<open>stroke_matcher.py\<close>. Coordinates, features and fitness
  values are IEEE doubles in the source; here they are real numbers, so rounding is not
  modelled and every arithmetic law of the reals holds exactly. Nor is overflow: a real
  number is never an infinity or a NaN, so the real-number functions are the code on
  arrays of floating-point dtype whose arithmetic stays finite (\<open>double_range\<close> below
  bounds such inputs). The normalizer on arrays of integer dtype, where rounding followed
  by truncation decides the stored value, is modelled apart, with the rounding written
  out. Python integers are \<open>int\<close>, lengths and positions are \<open>nat\<close>, and every
  exception the source can raise is a value \<open>Inl e\<close> of the result type.
  \<open>NotARealNumber\<close> is no exception of the source: it ends a run of the model where the
  code goes on with an infinity.
\<close>

datatype py_error =
    ValueError
  | IndexError
  | TypeError
  | AttributeError
  | NotARealNumber

text \<open>
  A stroke is a numpy array of floating-point numbers of shape \<open>(k, n)\<close>: a list of
  \<open>k\<close> rows, row 0 the x-coordinates and row 1 the y-coordinates.
\<close>

type_synonym stroke = "real list list"

record StrokeFeatures =
  center :: "real \<times> real"
  length_feat :: real
  angle :: real
  start_point :: "real \<times> real"
  end_point :: "real \<times> real"
  points :: "real list list"

record norm_metadata =
  x_min :: real
  y_min :: real
  x_max :: real
  y_max :: real
  scale :: real
  width :: real
  height :: real

record FitnessFunction =
  alpha :: real
  beta :: real
  gamma :: real
  epsilon :: real

type_synonym chromosome = "int list"

section \<open>The random source\<close>

text \<open>
  \<^verbatim>\<open>np.random\<close> is a stream of raw draws, threaded through every function that
  uses it. Each primitive maps raw draws into its range, so that every outcome the
  library can produce is produced by some stream: \<^verbatim>\<open>random()\<close> is \<open>k / 2^53\<close>
  with \<open>k < 2^53\<close>, \<^verbatim>\<open>randint(lo, hi)\<close> lies in \<open>[lo, hi)\<close> and raises
  \<^verbatim>\<open>ValueError\<close> when \<open>lo \<ge> hi\<close>, \<^verbatim>\<open>shuffle\<close> is the library's Fisher-Yates loop
  (from the last position down to 1, swapping with a drawn position not above it), and
  \<^verbatim>\<open>choice(n, size, replace=False)\<close> is the first \<open>size\<close> entries of a shuffled
  \<open>[0..<n]\<close>, with the library's two \<^verbatim>\<open>ValueError\<close>s.
\<close>

type_synonym rng = "nat \<Rightarrow> nat"

definition next_raw :: "rng \<Rightarrow> nat \<times> rng" where
  "next_raw g = (g 0, \<lambda>n. g (Suc n))"

definition random_sample :: "rng \<Rightarrow> real \<times> rng" where
  "random_sample g = (let (k, g') = next_raw g in (real (k mod 2 ^ 53) / 2 ^ 53, g'))"

definition rk_interval :: "nat \<Rightarrow> rng \<Rightarrow> nat \<times> rng" where
  "rk_interval mx g = (let (k, g') = next_raw g in (k mod (Suc mx), g'))"

definition randint :: "int \<Rightarrow> int \<Rightarrow> rng \<Rightarrow> py_error + (int \<times> rng)" where
  "randint lo hi g =
     (if lo \<ge> hi then Inl ValueError
      else let (k, g') = next_raw g in Inr (lo + int (k mod nat (hi - lo)), g'))"

fun randint_n :: "int \<Rightarrow> int \<Rightarrow> nat \<Rightarrow> rng \<Rightarrow> py_error + (int list \<times> rng)" where
  "randint_n lo hi 0 g = (if lo \<ge> hi then Inl ValueError else Inr ([], g))"
| "randint_n lo hi (Suc n) g =
     (case randint lo hi g of
        Inl e \<Rightarrow> Inl e
      | Inr (v, g1) \<Rightarrow>
          (case randint_n lo hi n g1 of
             Inl e \<Rightarrow> Inl e
           | Inr (vs, g2) \<Rightarrow> Inr (v # vs, g2)))"

fun shuffle_from :: "nat \<Rightarrow> 'a list \<Rightarrow> rng \<Rightarrow> 'a list \<times> rng" where
  "shuffle_from 0 xs g = (xs, g)"
| "shuffle_from (Suc i) xs g =
     (let (j, g1) = rk_interval (Suc i) g
      in shuffle_from i (xs[Suc i := xs ! j, j := xs ! Suc i]) g1)"

definition shuffle :: "'a list \<Rightarrow> rng \<Rightarrow> 'a list \<times> rng" where
  "shuffle xs g = shuffle_from (length xs - 1) xs g"

definition choice :: "nat \<Rightarrow> int \<Rightarrow> rng \<Rightarrow> py_error + (nat list \<times> rng)" where
  "choice n sz g =
     (if n = 0 \<and> sz \<noteq> 0 then Inl ValueError
      else if sz > int n then Inl ValueError
      else if sz < 0 then Inl ValueError
      else let (perm, g') = shuffle [0..<n] g in Inr (take (nat sz) perm, g'))"

section \<open>Python and numpy list primitives\<close>

text \<open>\<^verbatim>\<open>xs[i]\<close>: a negative index counts from the end of the list.\<close>

definition py_get :: "'a list \<Rightarrow> int \<Rightarrow> py_error + 'a" where
  "py_get xs i =
     (if 0 \<le> i \<and> i < int (length xs) then Inr (xs ! nat i)
      else if i < 0 \<and> - int (length xs) \<le> i then Inr (xs ! nat (int (length xs) + i))
      else Inl IndexError)"

definition np_min :: "real list \<Rightarrow> py_error + real" where
  "np_min xs = (case xs of [] \<Rightarrow> Inl ValueError | x # r \<Rightarrow> Inr (fold min r x))"

definition np_max :: "real list \<Rightarrow> py_error + real" where
  "np_max xs = (case xs of [] \<Rightarrow> Inl ValueError | x # r \<Rightarrow> Inr (fold max r x))"

definition np_mean :: "real list \<Rightarrow> real" where
  "np_mean xs = sum_list xs / real (length xs)"

definition np_diff :: "real list \<Rightarrow> real list" where
  "np_diff xs = map2 (\<lambda>a b. b - a) xs (tl xs)"

definition norm2 :: "real \<times> real \<Rightarrow> real" where
  "norm2 v = sqrt ((fst v)\<^sup>2 + (snd v)\<^sup>2)"

definition vsub :: "real \<times> real \<Rightarrow> real \<times> real \<Rightarrow> real \<times> real" where
  "vsub a b = (fst a - fst b, snd a - snd b)"

text \<open>
  \<^verbatim>\<open>np.arctan2(y, x)\<close>: the angle of the point \<open>(x, y)\<close> in \<open>(-\<pi>, \<pi>]\<close>, and 0 at
  the origin.
\<close>

definition arctan2 :: "real \<Rightarrow> real \<Rightarrow> real" where
  "arctan2 y x =
     (if x > 0 then arctan (y / x)
      else if x < 0 \<and> y \<ge> 0 then arctan (y / x) + pi
      else if x < 0 then arctan (y / x) - pi
      else if y > 0 then pi / 2
      else if y < 0 then - (pi / 2)
      else 0)"

definition py_max_key :: "('a \<Rightarrow> real) \<Rightarrow> 'a \<Rightarrow> 'a list \<Rightarrow> 'a" where
  "py_max_key key x xs = fold (\<lambda>y best. if key y > key best then y else best) xs x"

fun py_index :: "real list \<Rightarrow> real \<Rightarrow> nat" where
  "py_index [] v = 0"
| "py_index (x # xs) v = (if x = v then 0 else Suc (py_index xs v))"

section \<open>StrokeNormalizer\<close>

fun collect_xy ::
  "stroke list \<Rightarrow> real list \<Rightarrow> real list \<Rightarrow> py_error + (real list \<times> real list)" where
  "collect_xy [] all_x all_y = Inr (all_x, all_y)"
| "collect_xy (s # ss) all_x all_y =
     (if length s < 2 then Inl ValueError
      else collect_xy ss (all_x @ s ! 0) (all_y @ s ! 1))"

definition compute_scale :: "real \<Rightarrow> real \<Rightarrow> real \<Rightarrow> real" where
  "compute_scale target w h =
     (if w = 0 \<and> h = 0 then 1
      else if w = 0 then target / h
      else if h = 0 then target / w
      else target / max w h)"

definition normalize_stroke :: "real \<Rightarrow> real \<Rightarrow> real \<Rightarrow> stroke \<Rightarrow> stroke" where
  "normalize_stroke xmin ymin sc s =
     (s[0 := map (\<lambda>x. (x - xmin) * sc) (s ! 0)])
       [1 := map (\<lambda>y. (y - ymin) * sc) (s ! 1)]"

definition normalize ::
  "real \<Rightarrow> stroke list \<Rightarrow> py_error + (stroke list \<times> norm_metadata option)" where
  "normalize target strokes =
     (if length strokes = 0 then Inr ([], None)
      else
        case collect_xy strokes [] [] of
          Inl e \<Rightarrow> Inl e
        | Inr (all_x, all_y) \<Rightarrow>
           (case np_min all_x of Inl e \<Rightarrow> Inl e | Inr xmin \<Rightarrow>
            case np_max all_x of Inl e \<Rightarrow> Inl e | Inr xmax \<Rightarrow>
            case np_min all_y of Inl e \<Rightarrow> Inl e | Inr ymin \<Rightarrow>
            case np_max all_y of Inl e \<Rightarrow> Inl e | Inr ymax \<Rightarrow>
              let w = xmax - xmin;
                  h = ymax - ymin;
                  sc = compute_scale target w h
              in Inr (map (normalize_stroke xmin ymin sc) strokes,
                      Some \<lparr>x_min = xmin, y_min = ymin, x_max = xmax, y_max = ymax,
                            scale = sc, width = w, height = h\<rparr>)))"

subsection \<open>The normalizer on a store of arrays\<close>

text \<open>
  numpy arrays are mutable objects and a stroke list holds references to them. To state
  what \<^verbatim>\<open>normalize\<close> writes, arrays live in a store (a list, an address being a
  position in it): \<^verbatim>\<open>stroke.copy()\<close> allocates a new array at the end of the store,
  and the two row assignments write to that new array.
\<close>

type_synonym store = "stroke list"

definition np_copy :: "store \<Rightarrow> nat \<Rightarrow> nat \<times> store" where
  "np_copy h a = (length h, h @ [h ! a])"

definition set_row :: "store \<Rightarrow> nat \<Rightarrow> nat \<Rightarrow> real list \<Rightarrow> store" where
  "set_row h a i row = h[a := (h ! a)[i := row]]"

fun normalize_each ::
  "real \<Rightarrow> real \<Rightarrow> real \<Rightarrow> nat list \<Rightarrow> nat list \<Rightarrow> store \<Rightarrow> nat list \<times> store" where
  "normalize_each xmin ymin sc [] normalized h = (normalized, h)"
| "normalize_each xmin ymin sc (a # as) normalized h =
     (let (b, h1) = np_copy h a;
          h2 = set_row h1 b 0 (map (\<lambda>x. (x - xmin) * sc) (h1 ! a ! 0));
          h3 = set_row h2 b 1 (map (\<lambda>y. (y - ymin) * sc) (h2 ! a ! 1))
      in normalize_each xmin ymin sc as (normalized @ [b]) h3)"

definition normalize_store ::
  "real \<Rightarrow> nat list \<Rightarrow> store \<Rightarrow> py_error + (nat list \<times> norm_metadata option) \<times> store" where
  "normalize_store target strokes h =
     (if length strokes = 0 then Inr (([], None), h)
      else
        case collect_xy (map (\<lambda>a. h ! a) strokes) [] [] of
          Inl e \<Rightarrow> Inl e
        | Inr (all_x, all_y) \<Rightarrow>
           (case np_min all_x of Inl e \<Rightarrow> Inl e | Inr xmin \<Rightarrow>
            case np_max all_x of Inl e \<Rightarrow> Inl e | Inr xmax \<Rightarrow>
            case np_min all_y of Inl e \<Rightarrow> Inl e | Inr ymin \<Rightarrow>
            case np_max all_y of Inl e \<Rightarrow> Inl e | Inr ymax \<Rightarrow>
              let w = xmax - xmin;
                  h' = ymax - ymin;
                  sc = compute_scale target w h';
                  (normalized, hn) = normalize_each xmin ymin sc strokes [] h
              in Inr ((normalized,
                       Some \<lparr>x_min = xmin, y_min = ymin, x_max = xmax, y_max = ymax,
                             scale = sc, width = w, height = h'\<rparr>), hn)))"

subsection \<open>The normalizer on arrays of integer dtype\<close>

text \<open>
  \<^verbatim>\<open>np.array([[0, 97], [0, 0]])\<close> is an array of dtype \<^verbatim>\<open>int64\<close>. On such a stroke
  the bounding box and the differences \<^verbatim>\<open>stroke[0, :] - x_min\<close> are integers, the scale
  and the products are doubles, and \<^verbatim>\<open>stroke.copy()\<close> keeps the dtype: the two row
  assignments store each product cast to \<^verbatim>\<open>int64\<close>, which drops its fraction. The
  rounding of the doubles decides the integer stored, so it is written out here:
  \<open>float64 x\<close> is the double nearest to \<open>x\<close> (53 significant bits, ties to the even
  significand), for \<open>x\<close> in the range of normal doubles. Integers below \<open>2\<^sup>5\<^sup>3\<close> in
  magnitude convert to doubles exactly, and the target size is a double.
\<close>

definition round_half_even :: "real \<Rightarrow> int" where
  "round_half_even x =
     (let f = \<lfloor>x\<rfloor>; d = x - of_int f
      in if d < 1 / 2 then f else if d > 1 / 2 then f + 1 else if even f then f else f + 1)"

definition float64 :: "real \<Rightarrow> real" where
  "float64 x =
     (if x = 0 then 0
      else let e = \<lfloor>log 2 \<bar>x\<bar>\<rfloor> - 52
           in of_int (round_half_even (x / 2 powr (of_int e))) * 2 powr (of_int e))"

text \<open>The cast of a double to \<^verbatim>\<open>int64\<close>: towards zero.\<close>

definition c_trunc :: "real \<Rightarrow> int" where
  "c_trunc x = (if 0 \<le> x then \<lfloor>x\<rfloor> else \<lceil>x\<rceil>)"

type_synonym int_stroke = "int list list"

fun collect_xy_int64 ::
  "int_stroke list \<Rightarrow> int list \<Rightarrow> int list \<Rightarrow> py_error + (int list \<times> int list)" where
  "collect_xy_int64 [] all_x all_y = Inr (all_x, all_y)"
| "collect_xy_int64 (s # ss) all_x all_y =
     (if length s < 2 then Inl ValueError
      else collect_xy_int64 ss (all_x @ s ! 0) (all_y @ s ! 1))"

definition np_min_int64 :: "int list \<Rightarrow> py_error + int" where
  "np_min_int64 xs = (case xs of [] \<Rightarrow> Inl ValueError | x # r \<Rightarrow> Inr (fold min r x))"

definition np_max_int64 :: "int list \<Rightarrow> py_error + int" where
  "np_max_int64 xs = (case xs of [] \<Rightarrow> Inl ValueError | x # r \<Rightarrow> Inr (fold max r x))"

definition compute_scale_int64 :: "real \<Rightarrow> int \<Rightarrow> int \<Rightarrow> real" where
  "compute_scale_int64 target w h =
     (if w = 0 \<and> h = 0 then 1
      else if w = 0 then float64 (target / of_int h)
      else if h = 0 then float64 (target / of_int w)
      else float64 (target / of_int (max w h)))"

definition normalize_stroke_int64 :: "int \<Rightarrow> int \<Rightarrow> real \<Rightarrow> int_stroke \<Rightarrow> int_stroke" where
  "normalize_stroke_int64 xmin ymin sc s =
     (s[0 := map (\<lambda>x. c_trunc (float64 (of_int (x - xmin) * sc))) (s ! 0)])
       [1 := map (\<lambda>y. c_trunc (float64 (of_int (y - ymin) * sc))) (s ! 1)]"

definition normalize_int64 ::
  "real \<Rightarrow> int_stroke list \<Rightarrow> py_error + (int_stroke list \<times> norm_metadata option)" where
  "normalize_int64 target strokes =
     (if length strokes = 0 then Inr ([], None)
      else
        case collect_xy_int64 strokes [] [] of
          Inl e \<Rightarrow> Inl e
        | Inr (all_x, all_y) \<Rightarrow>
           (case np_min_int64 all_x of Inl e \<Rightarrow> Inl e | Inr xmin \<Rightarrow>
            case np_max_int64 all_x of Inl e \<Rightarrow> Inl e | Inr xmax \<Rightarrow>
            case np_min_int64 all_y of Inl e \<Rightarrow> Inl e | Inr ymin \<Rightarrow>
            case np_max_int64 all_y of Inl e \<Rightarrow> Inl e | Inr ymax \<Rightarrow>
              let w = xmax - xmin;
                  h = ymax - ymin;
                  sc = compute_scale_int64 target w h
              in Inr (map (normalize_stroke_int64 xmin ymin sc) strokes,
                      Some \<lparr>x_min = of_int xmin, y_min = of_int ymin, x_max = of_int xmax,
                            y_max = of_int ymax, scale = sc, width = of_int w,
                            height = of_int h\<rparr>)))"

section \<open>StrokeFeatureExtractor\<close>

text \<open>
  \<^verbatim>\<open>stroke[1, :]\<close> raises \<^verbatim>\<open>IndexError\<close> on an array of fewer than two rows and
  \<^verbatim>\<open>x[0]\<close> raises it on an array with no column. The rows of an array have one
  length; the model reads rows 0 and 1 as they are.

  (The source's name \<^verbatim>\<open>extract\<close> is a keyword of Isabelle.)
\<close>

definition extract_features :: "stroke \<Rightarrow> py_error + StrokeFeatures" where
  "extract_features s =
     (if length s < 2 then Inl IndexError
      else
        let x = s ! 0; y = s ! 1 in
        if x = [] \<or> y = [] then Inl IndexError
        else
          let c = (np_mean x, np_mean y);
              dx = np_diff x;
              dy = np_diff y;
              segment_lengths = map2 (\<lambda>a b. sqrt (a\<^sup>2 + b\<^sup>2)) dx dy;
              len = sum_list segment_lengths;
              start = (hd x, hd y);
              endp = (last x, last y);
              vec = vsub endp start;
              ang = (if norm2 vec > 1 / 1000000 then arctan2 (fst vec) (snd vec) else 0)
          in Inr \<lparr>center = c, length_feat = len, angle = ang,
                  start_point = start, end_point = endp, points = take 2 s\<rparr>)"

fun extract_all :: "stroke list \<Rightarrow> py_error + StrokeFeatures list" where
  "extract_all [] = Inr []"
| "extract_all (s # ss) =
     (case extract_features s of
        Inl e \<Rightarrow> Inl e
      | Inr f \<Rightarrow> (case extract_all ss of Inl e \<Rightarrow> Inl e | Inr fs \<Rightarrow> Inr (f # fs)))"

section \<open>FitnessFunction\<close>

definition bbox_tl :: "StrokeFeatures list \<Rightarrow> real \<times> real" where
  "bbox_tl fs =
     (case map center fs of
        [] \<Rightarrow> (0, 0)
      | c # cs \<Rightarrow> (fold min (map fst cs) (fst c), fold min (map snd cs) (snd c)))"

definition angle_distance :: "real \<Rightarrow> real \<Rightarrow> real" where
  "angle_distance a b = (let d = \<bar>a - b\<bar> in if d > pi then 2 * pi - d else d)"

definition pair_distance ::
  "FitnessFunction \<Rightarrow> real \<times> real \<Rightarrow> real \<times> real \<Rightarrow> StrokeFeatures \<Rightarrow> StrokeFeatures \<Rightarrow> real"
  where
  "pair_distance ff written_tl ref_tl w_feat r_feat =
     (let d_center = norm2 (vsub (center w_feat) (center r_feat));
          d_length = \<bar>length_feat w_feat - length_feat r_feat\<bar>;
          d_angle = angle_distance (angle w_feat) (angle r_feat);
          written_rel_dist = norm2 (vsub (center w_feat) written_tl);
          ref_rel_dist = norm2 (vsub (center r_feat) ref_tl);
          d_relative = \<bar>written_rel_dist - ref_rel_dist\<bar>
      in alpha ff * d_center + beta ff * d_length + gamma ff * d_angle
           + epsilon ff * d_relative)"

fun distance_loop ::
  "FitnessFunction \<Rightarrow> StrokeFeatures list \<Rightarrow> StrokeFeatures list \<Rightarrow> real \<times> real \<Rightarrow>
   real \<times> real \<Rightarrow> nat \<Rightarrow> chromosome \<Rightarrow> real \<Rightarrow> py_error + real" where
  "distance_loop ff wfs rfs written_tl ref_tl written_idx [] total_distance = Inr total_distance"
| "distance_loop ff wfs rfs written_tl ref_tl written_idx (ref_idx # rest) total_distance =
     (if written_idx \<ge> length wfs then Inl IndexError
      else if ref_idx = 0 \<or> ref_idx > int (length rfs)
      then distance_loop ff wfs rfs written_tl ref_tl (Suc written_idx) rest (total_distance + 1000)
      else
        case py_get rfs (ref_idx - 1) of
          Inl e \<Rightarrow> Inl e
        | Inr ref_feat \<Rightarrow>
            distance_loop ff wfs rfs written_tl ref_tl (Suc written_idx) rest
              (total_distance + pair_distance ff written_tl ref_tl (wfs ! written_idx) ref_feat))"

definition compute_distance ::
  "FitnessFunction \<Rightarrow> StrokeFeatures list \<Rightarrow> StrokeFeatures list \<Rightarrow> chromosome \<Rightarrow>
   py_error + real" where
  "compute_distance ff wfs rfs mapping =
     distance_loop ff wfs rfs (bbox_tl wfs) (bbox_tl rfs) 0 mapping 0"

text \<open>
  \<open>1.0 / (1.0 + distance)\<close> at \<open>distance = -1\<close>, reachable only with a negative
  weight: the distance is then a numpy double, and the quotient is an infinity, with a
  warning and no exception. An infinity is not a real number; the model ends the run
  there with \<open>NotARealNumber\<close>.
\<close>

definition compute_fitness :: "real \<Rightarrow> py_error + real" where
  "compute_fitness distance =
     (if 1 + distance = 0 then Inl NotARealNumber else Inr (1 / (1 + distance)))"

section \<open>GeneticAlgorithm\<close>

record GeneticAlgorithm =
  n_written :: nat
  n_reference :: nat
  fitness_func :: FitnessFunction
  population_size :: int
  max_generations :: int
  crossover_rate :: real
  mutation_rate :: real
  tournament_size :: int
  convergence_generations :: int

text \<open>
  The constructor stores its arguments and checks none of them.
  \<^verbatim>\<open>population_size or (8 * n_written)\<close> takes the default when the argument is
  \<^verbatim>\<open>None\<close> or 0.
\<close>

definition GeneticAlgorithm_init ::
  "nat \<Rightarrow> nat \<Rightarrow> FitnessFunction \<Rightarrow> int option \<Rightarrow> int \<Rightarrow> real \<Rightarrow> real \<Rightarrow> int \<Rightarrow> int \<Rightarrow>
   GeneticAlgorithm" where
  "GeneticAlgorithm_init nw nr ff ps mg cr mr ts cg =
     \<lparr>n_written = nw, n_reference = nr, fitness_func = ff,
      population_size =
        (case ps of None \<Rightarrow> 8 * int nw | Some p \<Rightarrow> if p = 0 then 8 * int nw else p),
      max_generations = mg, crossover_rate = cr, mutation_rate = mr,
      tournament_size = ts, convergence_generations = cg\<rparr>"

text \<open>The state of one run of \<^verbatim>\<open>evolve\<close>: its local variables and the two histories.\<close>

record ga_state =
  population :: "chromosome list"
  best_chromosome :: "chromosome option"
  best_fitness :: real
  generations_without_improvement :: int
  best_fitness_history :: "real list"
  avg_fitness_history :: "real list"
  rng_state :: rng

record ga_result =
  mapping :: "chromosome option"
  fitness :: real
  generations :: nat
  history_best_fitness :: "real list"
  history_avg_fitness :: "real list"

datatype 'a loop_exit = Continue 'a | Break 'a

definition create_chromosome :: "GeneticAlgorithm \<Rightarrow> rng \<Rightarrow> py_error + (chromosome \<times> rng)"
  where
  "create_chromosome ga g =
     (let diff = int (n_written ga) - int (n_reference ga) in
      if diff = 0 then Inr (shuffle (map int [1..<n_reference ga + 1]) g)
      else if diff > 0
      then Inr (shuffle (map int [1..<n_reference ga + 1] @ replicate (nat diff) 0) g)
      else randint_n 1 (int (n_reference ga) + 1) (n_written ga) g)"

fun create_population ::
  "GeneticAlgorithm \<Rightarrow> nat \<Rightarrow> rng \<Rightarrow> py_error + (chromosome list \<times> rng)" where
  "create_population ga 0 g = Inr ([], g)"
| "create_population ga (Suc n) g =
     (case create_chromosome ga g of
        Inl e \<Rightarrow> Inl e
      | Inr (c, g1) \<Rightarrow>
          (case create_population ga n g1 of
             Inl e \<Rightarrow> Inl e
           | Inr (cs, g2) \<Rightarrow> Inr (c # cs, g2)))"

definition evaluate_chromosome ::
  "GeneticAlgorithm \<Rightarrow> chromosome \<Rightarrow> StrokeFeatures list \<Rightarrow> StrokeFeatures list \<Rightarrow>
   py_error + real" where
  "evaluate_chromosome ga chrom wfs rfs =
     (case compute_distance (fitness_func ga) wfs rfs chrom of
        Inl e \<Rightarrow> Inl e
      | Inr distance \<Rightarrow> compute_fitness distance)"

fun evaluate_all ::
  "GeneticAlgorithm \<Rightarrow> chromosome list \<Rightarrow> StrokeFeatures list \<Rightarrow> StrokeFeatures list \<Rightarrow>
   py_error + real list" where
  "evaluate_all ga [] wfs rfs = Inr []"
| "evaluate_all ga (c # cs) wfs rfs =
     (case evaluate_chromosome ga c wfs rfs of
        Inl e \<Rightarrow> Inl e
      | Inr f \<Rightarrow>
          (case evaluate_all ga cs wfs rfs of
             Inl e \<Rightarrow> Inl e
           | Inr fs \<Rightarrow> Inr (f # fs)))"

definition tournament_selection ::
  "GeneticAlgorithm \<Rightarrow> chromosome list \<Rightarrow> real list \<Rightarrow> rng \<Rightarrow> py_error + (chromosome \<times> rng)"
  where
  "tournament_selection ga pop fitnesses g =
     (case choice (length pop) (tournament_size ga) g of
        Inl e \<Rightarrow> Inl e
      | Inr (tournament_indices, g') \<Rightarrow>
          (case map (\<lambda>i. (pop ! i, fitnesses ! i)) tournament_indices of
             [] \<Rightarrow> Inl ValueError
           | t # ts \<Rightarrow> Inr (fst (py_max_key snd t ts), g')))"

definition crossover ::
  "GeneticAlgorithm \<Rightarrow> chromosome \<Rightarrow> chromosome \<Rightarrow> rng \<Rightarrow>
   py_error + ((chromosome \<times> chromosome) \<times> rng)" where
  "crossover ga parent1 parent2 g =
     (if length parent1 < 2 then Inr ((parent1, parent2), g)
      else
        let (u, g1) = random_sample g in
        if u < crossover_rate ga
        then
          (case randint 1 (int (length parent1)) g1 of
             Inl e \<Rightarrow> Inl e
           | Inr (point, g2) \<Rightarrow>
               Inr ((take (nat point) parent1 @ drop (nat point) parent2,
                     take (nat point) parent2 @ drop (nat point) parent1), g2))
        else Inr ((parent1, parent2), g1))"

fun mutate :: "GeneticAlgorithm \<Rightarrow> chromosome \<Rightarrow> rng \<Rightarrow> py_error + (chromosome \<times> rng)" where
  "mutate ga [] g = Inr ([], g)"
| "mutate ga (x # xs) g =
     (let (u, g1) = random_sample g in
      if u < mutation_rate ga
      then
        (case randint 0 (int (n_reference ga) + 1) g1 of
           Inl e \<Rightarrow> Inl e
         | Inr (v, g2) \<Rightarrow>
             (case mutate ga xs g2 of
                Inl e \<Rightarrow> Inl e
              | Inr (ys, g3) \<Rightarrow> Inr (v # ys, g3)))
      else
        (case mutate ga xs g1 of
           Inl e \<Rightarrow> Inl e
         | Inr (ys, g3) \<Rightarrow> Inr (x # ys, g3)))"

text \<open>
  One pass of the loop \<^verbatim>\<open>while len(new_population) < self.population_size\<close>: two
  tournaments, a crossover, two mutations, and both children appended.
\<close>

definition breed_pair ::
  "GeneticAlgorithm \<Rightarrow> chromosome list \<Rightarrow> real list \<Rightarrow> rng \<Rightarrow>
   py_error + ((chromosome \<times> chromosome) \<times> rng)" where
  "breed_pair ga pop fitnesses g =
     (case tournament_selection ga pop fitnesses g of Inl e \<Rightarrow> Inl e | Inr (parent1, g1) \<Rightarrow>
      case tournament_selection ga pop fitnesses g1 of Inl e \<Rightarrow> Inl e | Inr (parent2, g2) \<Rightarrow>
      case crossover ga parent1 parent2 g2 of Inl e \<Rightarrow> Inl e | Inr ((child1, child2), g3) \<Rightarrow>
      case mutate ga child1 g3 of Inl e \<Rightarrow> Inl e | Inr (child1', g4) \<Rightarrow>
      case mutate ga child2 g4 of Inl e \<Rightarrow> Inl e | Inr (child2', g5) \<Rightarrow>
        Inr ((child1', child2'), g5))"

function breed ::
  "GeneticAlgorithm \<Rightarrow> chromosome list \<Rightarrow> real list \<Rightarrow> chromosome list \<Rightarrow> rng \<Rightarrow>
   py_error + (chromosome list \<times> rng)" where
  "breed ga pop fitnesses new_population g =
     (if int (length new_population) < population_size ga
      then
        (case breed_pair ga pop fitnesses g of
           Inl e \<Rightarrow> Inl e
         | Inr ((child1, child2), g') \<Rightarrow>
             breed ga pop fitnesses (new_population @ [child1, child2]) g')
      else Inr (new_population, g))"
  by pat_completeness auto
termination
  by (relation "measure (\<lambda>(ga, pop, fitnesses, new_population, g).
        nat (population_size ga - int (length new_population)))") auto

declare breed.simps [simp del]

text \<open>\<^verbatim>\<open>xs[:n]\<close>: the first \<open>n\<close> entries, or all but the last \<open>-n\<close> when \<open>n < 0\<close>.\<close>

definition py_slice_to :: "'a list \<Rightarrow> int \<Rightarrow> 'a list" where
  "py_slice_to xs n = (if n \<ge> 0 then take (nat n) xs else take (length xs - nat (- n)) xs)"

definition generation ::
  "GeneticAlgorithm \<Rightarrow> StrokeFeatures list \<Rightarrow> StrokeFeatures list \<Rightarrow> ga_state \<Rightarrow>
   py_error + ga_state loop_exit" where
  "generation ga wfs rfs s =
     (case evaluate_all ga (population s) wfs rfs of
        Inl e \<Rightarrow> Inl e
      | Inr fitnesses \<Rightarrow>
         (case fitnesses of
            [] \<Rightarrow> Inl ValueError
          | f # fs \<Rightarrow>
              let gen_best_fitness = fold max fs f;
                  gen_avg_fitness = np_mean fitnesses;
                  s1 = s\<lparr>best_fitness_history := best_fitness_history s @ [gen_best_fitness],
                         avg_fitness_history := avg_fitness_history s @ [gen_avg_fitness]\<rparr>;
                  s2 = (if gen_best_fitness > best_fitness s1
                        then s1\<lparr>best_fitness := gen_best_fitness,
                                best_chromosome :=
                                  Some (population s ! py_index fitnesses gen_best_fitness),
                                generations_without_improvement := 0\<rparr>
                        else s1\<lparr>generations_without_improvement :=
                                  generations_without_improvement s1 + 1\<rparr>)
              in
                if generations_without_improvement s2 \<ge> convergence_generations ga
                then Inr (Break s2)
                else
                  (case best_chromosome s2 of
                     None \<Rightarrow> Inl AttributeError
                   | Some bc \<Rightarrow>
                       (case breed ga (population s) fitnesses [bc] (rng_state s2) of
                          Inl e \<Rightarrow> Inl e
                        | Inr (new_population, g') \<Rightarrow>
                            Inr (Continue
                              (s2\<lparr>population :=
                                     py_slice_to new_population (population_size ga),
                                   rng_state := g'\<rparr>))))))"

fun evolve_loop ::
  "GeneticAlgorithm \<Rightarrow> StrokeFeatures list \<Rightarrow> StrokeFeatures list \<Rightarrow> nat \<Rightarrow> ga_state \<Rightarrow>
   py_error + ga_state" where
  "evolve_loop ga wfs rfs 0 s = Inr s"
| "evolve_loop ga wfs rfs (Suc k) s =
     (case generation ga wfs rfs s of
        Inl e \<Rightarrow> Inl e
      | Inr (Break s') \<Rightarrow> Inr s'
      | Inr (Continue s') \<Rightarrow> evolve_loop ga wfs rfs k s')"

text \<open>
  \<^verbatim>\<open>evolve\<close> on a freshly constructed optimizer (both histories empty), as
  \<^verbatim>\<open>match\<close> calls it: \<^verbatim>\<open>match\<close> constructs a new optimizer on every call. (A
  second \<^verbatim>\<open>evolve\<close> on one optimizer object would go on appending to the histories
  of the first.) \<^verbatim>\<open>range(n)\<close> is empty for \<open>n \<le> 0\<close>.
\<close>

definition evolve ::
  "GeneticAlgorithm \<Rightarrow> StrokeFeatures list \<Rightarrow> StrokeFeatures list \<Rightarrow> rng \<Rightarrow>
   py_error + ga_result" where
  "evolve ga wfs rfs g =
     (case create_population ga (nat (population_size ga)) g of
        Inl e \<Rightarrow> Inl e
      | Inr (pop, g1) \<Rightarrow>
         (case evolve_loop ga wfs rfs (nat (max_generations ga))
                 \<lparr>population = pop, best_chromosome = None, best_fitness = 0,
                  generations_without_improvement = 0, best_fitness_history = [],
                  avg_fitness_history = [], rng_state = g1\<rparr> of
            Inl e \<Rightarrow> Inl e
          | Inr s \<Rightarrow>
              Inr \<lparr>mapping = best_chromosome s, fitness = best_fitness s,
                   generations = length (best_fitness_history s),
                   history_best_fitness = best_fitness_history s,
                   history_avg_fitness = avg_fitness_history s\<rparr>))"

section \<open>ErrorDetector\<close>

text \<open>
  An error record is the source's dictionary without its \<^verbatim>\<open>description\<close>, which is
  a rendering of the other fields as text. \<^verbatim>\<open>None\<close> and an absent key are both
  \<open>None\<close>.
\<close>

datatype error_type = EXTRA | BROKEN | MISSING | ORIENTATION | ORDER

record writing_error =
  err_type :: error_type
  written_indices :: "nat list option"
  reference_index :: "int option"
  angle_diff_degrees :: "real option"
  expected_position :: "int option"

definition check_concatenated_redundant :: "chromosome \<Rightarrow> writing_error list" where
  "check_concatenated_redundant m = []"

text \<open>
  \<^verbatim>\<open>ref_groups\<close> is a dictionary whose order of insertion is the order of
  \<^verbatim>\<open>items()\<close>: an association list, a new key going to the end.
\<close>

fun group_add :: "(int \<times> nat list) list \<Rightarrow> int \<Rightarrow> nat \<Rightarrow> (int \<times> nat list) list" where
  "group_add [] ref_idx written_idx = [(ref_idx, [written_idx])]"
| "group_add ((k, v) # gs) ref_idx written_idx =
     (if k = ref_idx then (k, v @ [written_idx]) # gs
      else (k, v) # group_add gs ref_idx written_idx)"

fun group_loop ::
  "(int \<times> nat list) list \<Rightarrow> nat \<Rightarrow> chromosome \<Rightarrow> (int \<times> nat list) list" where
  "group_loop gs written_idx [] = gs"
| "group_loop gs written_idx (ref_idx # rest) =
     group_loop (group_add gs ref_idx written_idx) (Suc written_idx) rest"

definition ref_groups :: "chromosome \<Rightarrow> (int \<times> nat list) list" where
  "ref_groups m = group_loop [] 0 m"

definition check_broken_extra :: "chromosome \<Rightarrow> writing_error list" where
  "check_broken_extra m =
     (let groups = ref_groups m;
          extras =
            (case map_of groups 0 of
               None \<Rightarrow> []
             | Some ws \<Rightarrow>
                 if length ws > 0
                 then [\<lparr>err_type = EXTRA, written_indices = Some ws, reference_index = None,
                        angle_diff_degrees = None, expected_position = None\<rparr>]
                 else [])
      in extras @
         concat (map (\<lambda>(ref_idx, ws).
           if ref_idx > 0 \<and> length ws > 1
           then
             if length m > length (filter (\<lambda>r. r > 0) (map fst groups))
             then [\<lparr>err_type = EXTRA, written_indices = Some (tl ws),
                    reference_index = Some (ref_idx - 1),
                    angle_diff_degrees = None, expected_position = None\<rparr>]
             else [\<lparr>err_type = BROKEN, written_indices = Some ws,
                    reference_index = Some (ref_idx - 1),
                    angle_diff_degrees = None, expected_position = None\<rparr>]
           else []) groups))"

definition check_missing :: "chromosome \<Rightarrow> nat \<Rightarrow> writing_error list" where
  "check_missing m n_ref =
     (let matched_refs = set (map (\<lambda>ref_idx. ref_idx - 1) (filter (\<lambda>ref_idx. ref_idx > 0) m))
      in concat (map (\<lambda>ref_idx.
           if int ref_idx \<notin> matched_refs
           then [\<lparr>err_type = MISSING, written_indices = None,
                  reference_index = Some (int ref_idx),
                  angle_diff_degrees = None, expected_position = None\<rparr>]
           else []) [0..<n_ref]))"

fun orientation_loop ::
  "real \<Rightarrow> StrokeFeatures list \<Rightarrow> StrokeFeatures list \<Rightarrow> nat \<Rightarrow> chromosome \<Rightarrow>
   py_error + writing_error list" where
  "orientation_loop threshold wfs rfs written_idx [] = Inr []"
| "orientation_loop threshold wfs rfs written_idx (ref_idx # rest) =
     (if ref_idx = 0 \<or> ref_idx > int (length rfs)
      then orientation_loop threshold wfs rfs (Suc written_idx) rest
      else if written_idx \<ge> length wfs then Inl IndexError
      else
        case py_get rfs (ref_idx - 1) of
          Inl e \<Rightarrow> Inl e
        | Inr ref_feat \<Rightarrow>
            let angle_diff = angle_distance (angle (wfs ! written_idx)) (angle ref_feat);
                found =
                  (if angle_diff > threshold
                   then [\<lparr>err_type = ORIENTATION, written_indices = Some [written_idx],
                          reference_index = Some (ref_idx - 1),
                          angle_diff_degrees = Some (angle_diff * 180 / pi),
                          expected_position = None\<rparr>]
                   else [])
            in (case orientation_loop threshold wfs rfs (Suc written_idx) rest of
                  Inl e \<Rightarrow> Inl e
                | Inr es \<Rightarrow> Inr (found @ es)))"

definition check_orientation ::
  "real \<Rightarrow> chromosome \<Rightarrow> StrokeFeatures list \<Rightarrow> StrokeFeatures list \<Rightarrow>
   py_error + writing_error list" where
  "check_orientation threshold m wfs rfs = orientation_loop threshold wfs rfs 0 m"

fun order_loop :: "nat \<Rightarrow> chromosome \<Rightarrow> writing_error list" where
  "order_loop written_idx [] = []"
| "order_loop written_idx (ref_idx # rest) =
     (if ref_idx > 0 \<and> ref_idx \<noteq> int written_idx + 1
      then [\<lparr>err_type = ORDER, written_indices = Some [written_idx],
             reference_index = Some (ref_idx - 1),
             angle_diff_degrees = None, expected_position = Some (ref_idx - 1)\<rparr>]
      else []) @ order_loop (Suc written_idx) rest"

definition check_order :: "chromosome \<Rightarrow> writing_error list" where
  "check_order m = order_loop 0 m"

definition detect_errors ::
  "real \<Rightarrow> chromosome \<Rightarrow> StrokeFeatures list \<Rightarrow> StrokeFeatures list \<Rightarrow>
   py_error + writing_error list" where
  "detect_errors threshold m wfs rfs =
     (case check_orientation threshold m wfs rfs of
        Inl e \<Rightarrow> Inl e
      | Inr orientation \<Rightarrow>
          Inr (check_concatenated_redundant m @ check_broken_extra m
               @ check_missing m (length rfs) @ orientation @ check_order m))"

section \<open>StrokeMatcher\<close>

record StrokeMatcher =
  sm_fitness_func :: FitnessFunction
  sm_population_size :: "int option"
  sm_max_generations :: int
  sm_angle_threshold :: real
  sm_normalize :: bool
  sm_target_size :: real

definition StrokeMatcher_init ::
  "real \<Rightarrow> real \<Rightarrow> real \<Rightarrow> real \<Rightarrow> int option \<Rightarrow> int \<Rightarrow> real \<Rightarrow> bool \<Rightarrow> StrokeMatcher" where
  "StrokeMatcher_init a b c e ps mg th nrm =
     \<lparr>sm_fitness_func = \<lparr>alpha = a, beta = b, gamma = c, epsilon = e\<rparr>,
      sm_population_size = ps, sm_max_generations = mg, sm_angle_threshold = th,
      sm_normalize = nrm, sm_target_size = 100\<rparr>"

definition default_matcher :: StrokeMatcher where
  "default_matcher = StrokeMatcher_init 1 1 1 1 None 100 (pi / 4) True"

record match_result = ga_result +
  errors :: "writing_error list"
  written_features :: "StrokeFeatures list"
  reference_features :: "StrokeFeatures list"
  normalization_metadata :: "norm_metadata option \<times> norm_metadata option"

text \<open>
  \<^verbatim>\<open>match\<close>. With no best chromosome (\<^verbatim>\<open>None\<close>) the classifier raises
  \<^verbatim>\<open>TypeError\<close> at its first \<^verbatim>\<open>enumerate(mapping)\<close>.
\<close>

definition match ::
  "StrokeMatcher \<Rightarrow> stroke list \<Rightarrow> stroke list \<Rightarrow> rng \<Rightarrow> py_error + match_result" where
  "match sm written_strokes reference_strokes g =
     (case (if sm_normalize sm
            then
              (case normalize (sm_target_size sm) written_strokes of
                 Inl e \<Rightarrow> Inl e
               | Inr (written_norm, written_meta) \<Rightarrow>
                   (case normalize (sm_target_size sm) reference_strokes of
                      Inl e \<Rightarrow> Inl e
                    | Inr (reference_norm, reference_meta) \<Rightarrow>
                        Inr (written_norm, reference_norm, written_meta, reference_meta)))
            else Inr (written_strokes, reference_strokes, None, None)) of
        Inl e \<Rightarrow> Inl e
      | Inr (written_norm, reference_norm, written_meta, reference_meta) \<Rightarrow>
     (case extract_all written_norm of Inl e \<Rightarrow> Inl e | Inr wfs \<Rightarrow>
     (case extract_all reference_norm of Inl e \<Rightarrow> Inl e | Inr rfs \<Rightarrow>
        let ga = GeneticAlgorithm_init (length written_strokes) (length reference_strokes)
                   (sm_fitness_func sm) (sm_population_size sm) (sm_max_generations sm)
                   (8 / 10) (1 / 10) 3 10
        in
          (case evolve ga wfs rfs g of
             Inl e \<Rightarrow> Inl e
           | Inr ga_res \<Rightarrow>
              (case mapping ga_res of
                 None \<Rightarrow> Inl TypeError
               | Some m \<Rightarrow>
                  (case detect_errors (sm_angle_threshold sm) m wfs rfs of
                     Inl e \<Rightarrow> Inl e
                   | Inr errs \<Rightarrow>
                       Inr \<lparr>mapping = mapping ga_res, fitness = fitness ga_res,
                            generations = generations ga_res,
                            history_best_fitness = history_best_fitness ga_res,
                            history_avg_fitness = history_avg_fitness ga_res,
                            errors = errs, written_features = wfs,
                            reference_features = rfs,
                            normalization_metadata = (written_meta, reference_meta)\<rparr>))))))"

section \<open>Notions of the specification and of the proofs\<close>

text \<open>
  The written indices mapped to a reference index, and the number \<open>U\<close> of distinct
  non-zero reference indices of an assignment, as the specification words them.
\<close>

definition written_of :: "chromosome \<Rightarrow> int \<Rightarrow> nat list" where
  "written_of m r = filter (\<lambda>i. m ! i = r) [0..<length m]"

definition distinct_matched :: "chromosome \<Rightarrow> nat" where
  "distinct_matched m = length (remdups (filter (\<lambda>r. r \<noteq> 0) m))"

text \<open>The group of a key in \<^verbatim>\<open>ref_groups\<close>, empty for an absent key.\<close>

definition group_lookup :: "(int \<times> nat list) list \<Rightarrow> int \<Rightarrow> nat list" where
  "group_lookup gs k = (case map_of gs k of None \<Rightarrow> [] | Some v \<Rightarrow> v)"


text \<open>
  The shape of an assignment: length \<open>W\<close> and every entry in \<open>[0..R]\<close>.
\<close>

definition valid_chromosome :: "nat \<Rightarrow> nat \<Rightarrow> chromosome \<Rightarrow> bool" where
  "valid_chromosome W R c \<longleftrightarrow> length c = W \<and> list_all (\<lambda>x. 0 \<le> x \<and> x \<le> int R) c"

text \<open>
  What holds of the state at the head of every generation: the population has
  \<open>population_size\<close> members, all of the right shape; the best chromosome, once there
  is one, has the right shape and the best fitness is its fitness; the history of the
  generations' best fitness is ascending and bounded by the best fitness; and from the
  second generation on the first member of the population is the elite, whose fitness
  is the best fitness.
\<close>

definition ga_inv ::
  "GeneticAlgorithm \<Rightarrow> StrokeFeatures list \<Rightarrow> StrokeFeatures list \<Rightarrow> ga_state \<Rightarrow> bool" where
  "ga_inv ga wfs rfs s \<longleftrightarrow>
     length (population s) = nat (population_size ga)
   \<and> list_all (valid_chromosome (n_written ga) (n_reference ga)) (population s)
   \<and> (case best_chromosome s of
         None \<Rightarrow> True
       | Some bc \<Rightarrow> valid_chromosome (n_written ga) (n_reference ga) bc
                   \<and> evaluate_chromosome ga bc wfs rfs = Inr (best_fitness s))
   \<and> sorted (best_fitness_history s)
   \<and> list_all (\<lambda>h. h \<le> best_fitness s) (best_fitness_history s)
   \<and> (best_fitness_history s = [] \<or>
        (population s \<noteq> []
         \<and> evaluate_chromosome ga (hd (population s)) wfs rfs = Inr (best_fitness s)))"

text \<open>What holds of the state \<^verbatim>\<open>evolve\<close> ends in.\<close>

definition ga_post ::
  "GeneticAlgorithm \<Rightarrow> StrokeFeatures list \<Rightarrow> StrokeFeatures list \<Rightarrow> ga_state \<Rightarrow> bool" where
  "ga_post ga wfs rfs s \<longleftrightarrow>
     (case best_chromosome s of
         None \<Rightarrow> True
       | Some bc \<Rightarrow> valid_chromosome (n_written ga) (n_reference ga) bc
                   \<and> evaluate_chromosome ga bc wfs rfs = Inr (best_fitness s))
   \<and> sorted (best_fitness_history s)"

text \<open>
  A run the optimizer is made for: as many features as the optimizer was told strokes,
  weights that are not negative, and angles in \<open>[-\<pi>, \<pi>]\<close>, where the extractor puts
  them.
\<close>

definition ga_ok ::
  "GeneticAlgorithm \<Rightarrow> StrokeFeatures list \<Rightarrow> StrokeFeatures list \<Rightarrow> bool" where
  "ga_ok ga wfs rfs \<longleftrightarrow>
     n_written ga = length wfs \<and> n_reference ga = length rfs
   \<and> 0 \<le> alpha (fitness_func ga) \<and> 0 \<le> beta (fitness_func ga)
   \<and> 0 \<le> gamma (fitness_func ga) \<and> 0 \<le> epsilon (fitness_func ga)
   \<and> list_all (\<lambda>f. \<bar>angle f\<bar> \<le> pi) (wfs @ rfs)"

text \<open>
  A stroke the pipeline accepts: at least two coordinate rows and at least one point.
\<close>

definition stroke_ok :: "stroke \<Rightarrow> bool" where
  "stroke_ok s \<longleftrightarrow> 2 \<le> length s \<and> s ! 0 \<noteq> [] \<and> s ! 1 \<noteq> []"

text \<open>The identity assignment \<open>[1, 2, \<dots>, R]\<close>.\<close>

definition identity_assignment :: "nat \<Rightarrow> chromosome" where
  "identity_assignment R = map int [1..<Suc R]"

text \<open>
  A non-empty stroke list without a single x-coordinate or without a single
  y-coordinate: the bounding box of the normalizer has nothing to take a minimum of.
\<close>

definition no_points :: "stroke list \<Rightarrow> bool" where
  "no_points ss \<longleftrightarrow>
     ss \<noteq> [] \<and> (concat (map (\<lambda>s. s ! 0) ss) = [] \<or> concat (map (\<lambda>s. s ! 1) ss) = [])"

text \<open>
  Stroke lists on which the double arithmetic of the normalizer stays finite: every
  coordinate is at most \<open>10\<^sup>3\<^sup>0\<^sup>0\<close> in magnitude, so that the width and the height of the
  bounding box do not overflow, and the larger of the two is 0 or at least
  \<open>10\<^sup>-\<^sup>3\<^sup>0\<^sup>0\<close>, so that the scale does not. Outside this range the code computes with
  infinities and NaNs, which the real numbers of the model do not have. The normalized
  coordinates lie in \<open>[0, 100]\<close>, and nothing after the normalizer overflows.
\<close>

definition double_range :: "stroke list \<Rightarrow> bool" where
  "double_range ss \<longleftrightarrow>
     (let X = concat (map (\<lambda>s. s ! 0) ss); Y = concat (map (\<lambda>s. s ! 1) ss)
      in list_all (\<lambda>v. \<bar>v\<bar> \<le> 10 ^ 300) (X @ Y)
         \<and> (X = [] \<or> Y = [] \<or>
             (let d = max (Max (set X) - Min (set X)) (Max (set Y) - Min (set Y))
              in d = 0 \<or> 1 / 10 ^ 300 \<le> d)))"

section \<open>The broken/extra pass\<close>

lemma group_add_keys:
  "map fst (group_add gs r i) = (if r \<in> set (map fst gs) then map fst gs else map fst gs @ [r])"
  by (induction gs r i rule: group_add.induct) auto

lemma group_add_map_of:
  "map_of (group_add gs r i) k = (if k = r then Some (group_lookup gs r @ [i]) else map_of gs k)"
  by (induction gs r i rule: group_add.induct) (auto simp: group_lookup_def)

lemma group_add_distinct: "distinct (map fst gs) \<Longrightarrow> distinct (map fst (group_add gs r i))"
  by (simp add: group_add_keys)

lemma group_loop_distinct:
  "distinct (map fst gs) \<Longrightarrow> distinct (map fst (group_loop gs n m))"
  by (induction gs n m rule: group_loop.induct) (simp_all add: group_add_distinct)

lemma group_loop_keys:
  "set (map fst (group_loop gs n m)) = set (map fst gs) \<union> set m"
  by (induction gs n m rule: group_loop.induct) (auto simp: group_add_keys split: if_splits)

lemma group_loop_lookup:
  "group_lookup (group_loop gs n m) k =
     group_lookup gs k @ map fst (filter (\<lambda>p. snd p = k) (zip [n..<n + length m] m))"
proof (induction gs n m rule: group_loop.induct)
  case (1 gs n)
  then show ?case by simp
next
  case (2 gs n r rest)
  have "[n..<n + length (r # rest)] = n # [Suc n..<Suc n + length rest]"
    by (simp add: upt_rec)
  then show ?case using 2
    by (auto simp: group_lookup_def group_add_map_of)
qed

lemma zip_upt_filter:
  "map fst (filter (\<lambda>p. snd p = k) (zip [0..<length m] m)) = filter (\<lambda>i. m ! i = k) [0..<length m]"
proof -
  have "zip [0..<length m] m = map (\<lambda>i. (i, m ! i)) [0..<length m]"
    by (rule nth_equalityI) auto
  then show ?thesis by (simp add: filter_map comp_def)
qed

lemma ref_groups_lookup: "group_lookup (ref_groups m) k = written_of m k"
  using group_loop_lookup [of "[]" 0 m k]
  by (simp add: ref_groups_def written_of_def zip_upt_filter group_lookup_def)

lemma ref_groups_keys: "set (map fst (ref_groups m)) = set m"
  using group_loop_keys [of "[]" 0 m] by (simp add: ref_groups_def)

lemma ref_groups_distinct: "distinct (map fst (ref_groups m))"
  by (simp add: ref_groups_def group_loop_distinct)

lemma ref_groups_map_of:
  assumes "r \<in> set m"
  shows "map_of (ref_groups m) r = Some (written_of m r)"
proof -
  from assms have "r \<in> fst ` set (ref_groups m)" using ref_groups_keys [of m] by simp
  then obtain v where "map_of (ref_groups m) r = Some v"
    by (metis domD dom_map_of_conv_image_fst)
  then show ?thesis using ref_groups_lookup [of m r] by (simp add: group_lookup_def)
qed

lemma written_of_nonempty: "written_of m r \<noteq> [] \<Longrightarrow> r \<in> set m"
  by (auto simp: written_of_def filter_empty_conv)

lemma positive_keys_count:
  assumes "\<forall>x\<in>set m. 0 \<le> x"
  shows "length (filter (\<lambda>r. r > 0) (map fst (ref_groups m))) = distinct_matched m"
proof -
  have "length (filter (\<lambda>r. r > 0) (map fst (ref_groups m)))
        = card (set (filter (\<lambda>r. r > 0) (map fst (ref_groups m))))"
    by (simp add: distinct_card ref_groups_distinct distinct_filter del: set_filter)
  also have "set (filter (\<lambda>r. r > 0) (map fst (ref_groups m))) = set (filter (\<lambda>r. r \<noteq> 0) m)"
    using assms ref_groups_keys [of m] by auto
  also have "card \<dots> = distinct_matched m"
    by (simp add: distinct_matched_def length_remdups_card_conv del: set_filter)
  finally show ?thesis .
qed

text \<open>
  Claim C2. In a final assignment (no negative entry), for every non-zero reference
  index \<open>r\<close> to which more than one written index is mapped, the broken/extra pass
  emits an \<open>EXTRA\<close> record listing the written indices of the group after the first
  when \<open>W > U\<close>, and otherwise a \<open>BROKEN\<close> record listing all of them; both carry the
  reference index \<open>r - 1\<close>.
\<close>

theorem check_broken_extra_duplicate_group:
  assumes "\<forall>x\<in>set m. 0 \<le> x" and "r \<noteq> 0" and "length (written_of m r) > 1"
  shows "(if length m > distinct_matched m
          then \<lparr>err_type = EXTRA, written_indices = Some (tl (written_of m r)),
                reference_index = Some (r - 1), angle_diff_degrees = None,
                expected_position = None\<rparr>
          else \<lparr>err_type = BROKEN, written_indices = Some (written_of m r),
                reference_index = Some (r - 1), angle_diff_degrees = None,
                expected_position = None\<rparr>) \<in> set (check_broken_extra m)"
proof -
  from assms(3) have "written_of m r \<noteq> []" by auto
  then have rin: "r \<in> set m" by (rule written_of_nonempty)
  with assms(1,2) have pos: "r > 0" by force
  from rin have "(r, written_of m r) \<in> set (ref_groups m)"
    by (simp add: ref_groups_map_of map_of_SomeD)
  then show ?thesis
    using pos assms(3) positive_keys_count [OF assms(1)]
    unfolding check_broken_extra_def Let_def
    by (auto intro!: bexI [of _ "(r, written_of m r)"])
qed

theorem check_broken_extra_duplicate_group_witness:
  "list_all (\<lambda>x. 0 \<le> x) [1, 1, 2::int] \<and> (1::int) \<noteq> 0 \<and> length (written_of [1, 1, 2] 1) > 1
   \<and> \<lparr>err_type = EXTRA, written_indices = Some [1],
                reference_index = Some 0, angle_diff_degrees = None,
                expected_position = None\<rparr> \<in> set (check_broken_extra [1, 1, 2])"
  using check_broken_extra_duplicate_group [of "[1, 1, 2]" 1]
  by (simp add: written_of_def distinct_matched_def upt_rec)

text \<open>
  A group of more than one written index makes \<open>W\<close> exceed the number of groups, so
  the \<open>BROKEN\<close> branch is never taken.
\<close>

lemma duplicate_group_not_distinct:
  assumes "length (written_of m r) > 1"
  shows "\<not> distinct m"
proof
  assume d: "distinct m"
  let ?ws = "written_of m r"
  have dw: "distinct ?ws" by (simp add: written_of_def)
  from assms have l0: "0 < length ?ws" and l1: "1 < length ?ws" by auto
  have "?ws ! 0 \<in> set ?ws" "?ws ! 1 \<in> set ?ws"
    using nth_mem [OF l0] nth_mem [OF l1] by blast+
  then have "?ws ! 0 < length m" "?ws ! 1 < length m" "m ! (?ws ! 0) = r" "m ! (?ws ! 1) = r"
    by (simp_all add: written_of_def)
  moreover from dw l0 l1 have "?ws ! 0 \<noteq> ?ws ! 1"
    using nth_eq_iff_index_eq [of ?ws 0 1] by simp
  ultimately show False using d by (metis nth_eq_iff_index_eq)
qed

lemma duplicate_group_surplus:
  assumes "(r, ws) \<in> set (ref_groups m)" and "length ws > 1"
  shows "length m > length (filter (\<lambda>r. r > 0) (map fst (ref_groups m)))"
proof -
  from assms(1) have "map_of (ref_groups m) r = Some ws"
    by (simp add: ref_groups_distinct)
  then have "ws = written_of m r"
    using ref_groups_lookup [of m r] by (simp add: group_lookup_def)
  with assms(2) have "\<not> distinct m" using duplicate_group_not_distinct by simp
  then have "card (set m) < length m"
    using card_distinct [of m] card_length [of m] by linarith
  moreover have "length (map fst (ref_groups m)) = card (set m)"
    using distinct_card [OF ref_groups_distinct, of m] ref_groups_keys [of m] by simp
  moreover have "length (filter (\<lambda>r. r > 0) (map fst (ref_groups m)))
                 \<le> length (map fst (ref_groups m))"
    by (rule length_filter_le)
  ultimately show ?thesis by linarith
qed

lemma check_broken_extra_never_broken:
  "e \<in> set (check_broken_extra m) \<Longrightarrow> err_type e \<noteq> BROKEN"
  unfolding check_broken_extra_def Let_def
  by (auto split: option.splits if_splits dest: duplicate_group_surplus)

section \<open>The normalizer applied twice\<close>

lemma collect_xy_Inr:
  "collect_xy ss ax ay = Inr (X, Y) \<Longrightarrow>
     X = ax @ concat (map (\<lambda>s. s ! 0) ss) \<and> Y = ay @ concat (map (\<lambda>s. s ! 1) ss)
     \<and> (\<forall>s\<in>set ss. 2 \<le> length s)"
  by (induction ss ax ay rule: collect_xy.induct) (auto split: if_splits)

lemma collect_xy_ok:
  "\<forall>s\<in>set ss. 2 \<le> length s \<Longrightarrow>
     collect_xy ss ax ay = Inr (ax @ concat (map (\<lambda>s. s ! 0) ss), ay @ concat (map (\<lambda>s. s ! 1) ss))"
  by (induction ss ax ay rule: collect_xy.induct) auto

lemma normalize_stroke_rows:
  assumes "2 \<le> length s"
  shows "normalize_stroke a b c s ! 0 = map (\<lambda>x. (x - a) * c) (s ! 0)"
    and "normalize_stroke a b c s ! 1 = map (\<lambda>y. (y - b) * c) (s ! 1)"
    and "length (normalize_stroke a b c s) = length s"
proof -
  from assms have "0 < length s" "1 < length s" by linarith+
  then show "normalize_stroke a b c s ! 0 = map (\<lambda>x. (x - a) * c) (s ! 0)"
    and "normalize_stroke a b c s ! 1 = map (\<lambda>y. (y - b) * c) (s ! 1)"
    and "length (normalize_stroke a b c s) = length s"
    by (simp_all add: normalize_stroke_def nth_list_update)
qed

lemma normalize_stroke_unit: "normalize_stroke 0 0 1 = id"
  by (rule ext) (simp add: normalize_stroke_def)

lemma np_min_Min: "xs \<noteq> [] \<Longrightarrow> np_min xs = Inr (Min (set xs))"
  by (cases xs) (simp_all add: np_min_def Min.set_eq_fold [symmetric])

lemma np_max_Max: "xs \<noteq> [] \<Longrightarrow> np_max xs = Inr (Max (set xs))"
  by (cases xs) (simp_all add: np_max_def Max.set_eq_fold [symmetric])

lemma np_min_Inr: "np_min xs = Inr v \<Longrightarrow> xs \<noteq> [] \<and> v = Min (set xs)"
  by (cases xs) (simp_all add: np_min_def Min.set_eq_fold [symmetric])

lemma np_max_Inr: "np_max xs = Inr v \<Longrightarrow> xs \<noteq> [] \<and> v = Max (set xs)"
  by (cases xs) (simp_all add: np_max_def Max.set_eq_fold [symmetric])

lemma Min_affine:
  fixes xs :: "real list"
  assumes "xs \<noteq> []" and "0 \<le> c"
  shows "Min (set (map (\<lambda>x. (x - a) * c) xs)) = (Min (set xs) - a) * c"
proof -
  have "mono (\<lambda>x. (x - a) * c)" using assms(2) by (auto intro!: monoI mult_right_mono)
  from mono_Min_commute [OF this, of "set xs"] assms(1) show ?thesis by simp
qed

lemma Max_affine:
  fixes xs :: "real list"
  assumes "xs \<noteq> []" and "0 \<le> c"
  shows "Max (set (map (\<lambda>x. (x - a) * c) xs)) = (Max (set xs) - a) * c"
proof -
  have "mono (\<lambda>x. (x - a) * c)" using assms(2) by (auto intro!: monoI mult_right_mono)
  from mono_Max_commute [OF this, of "set xs"] assms(1) show ?thesis by simp
qed

lemma compute_scale_nonneg: "0 \<le> t \<Longrightarrow> 0 \<le> w \<Longrightarrow> 0 \<le> h \<Longrightarrow> 0 \<le> compute_scale t w h"
  by (simp add: compute_scale_def)

lemma compute_scale_second:
  assumes "0 \<le> t" "0 \<le> w" "0 \<le> h"
  shows "compute_scale t (w * compute_scale t w h) (h * compute_scale t w h) = 1"
proof -
  consider "w = 0" "h = 0" | "w = 0" "h \<noteq> 0" | "w \<noteq> 0" "h = 0" | "w \<noteq> 0" "h \<noteq> 0"
    by blast
  then show ?thesis
  proof cases
    case 1
    then show ?thesis by (simp add: compute_scale_def)
  next
    case 2
    then show ?thesis by (simp add: compute_scale_def)
  next
    case 3
    then show ?thesis by (simp add: compute_scale_def)
  next
    case 4
    with assms have pos: "0 < w" "0 < h" by simp_all
    then have mx: "0 < max w h" by simp
    show ?thesis
    proof (cases "t = 0")
      case True
      then show ?thesis using 4 by (simp add: compute_scale_def)
    next
      case False
      with assms(1) have tpos: "0 < t" by simp
      define sc where "sc = t / max w h"
      have scpos: "0 < sc" unfolding sc_def using tpos mx by simp
      have "max (w * sc) (h * sc) = max w h * sc"
        using scpos by (simp add: max_mult_distrib_right)
      also have "\<dots> = t" unfolding sc_def using mx by simp
      finally have m: "max (w * sc) (h * sc) = t" .
      have "compute_scale t w h = sc" using 4 by (simp add: compute_scale_def sc_def)
      moreover have "compute_scale t (w * sc) (h * sc) = 1"
        using pos scpos tpos m by (simp add: compute_scale_def)
      ultimately show ?thesis by simp
    qed
  qed
qed

lemma concat_rows_normalized:
  assumes "\<forall>s\<in>set ss. 2 \<le> length s"
  shows "concat (map (\<lambda>s. s ! 0) (map (normalize_stroke a b c) ss))
           = map (\<lambda>x. (x - a) * c) (concat (map (\<lambda>s. s ! 0) ss))"
    and "concat (map (\<lambda>s. s ! 1) (map (normalize_stroke a b c) ss))
           = map (\<lambda>y. (y - b) * c) (concat (map (\<lambda>s. s ! 1) ss))"
  using assms by (induction ss) (simp_all add: normalize_stroke_rows [unfolded One_nat_def] comp_def)

text \<open>
  On arrays of floating-point dtype, in exact arithmetic: for a non-empty stroke list that
  the normalizer accepts (target size not negative), normalizing its output returns the
  same strokes, and the second pass has its bounding-box minimum at the origin and
  scale 1.
\<close>

lemma normalize_twice_exact:
  assumes t: "0 \<le> target" and ne: "strokes \<noteq> []"
    and n1: "normalize target strokes = Inr (out, meta)"
  shows "\<exists>meta'. normalize target out = Inr (out, Some meta')
            \<and> x_min meta' = 0 \<and> y_min meta' = 0 \<and> scale meta' = 1"
proof -
  let ?X = "concat (map (\<lambda>s. s ! 0) strokes)" and ?Y = "concat (map (\<lambda>s. s ! 1) strokes)"
  from n1 ne obtain ax ay where c: "collect_xy strokes [] [] = Inr (ax, ay)"
    by (auto simp: normalize_def split: sum.splits)
  from collect_xy_Inr [OF c] have ax: "ax = ?X" and ay: "ay = ?Y"
    and rows: "\<forall>s\<in>set strokes. 2 \<le> length s" by simp_all
  from n1 ne c obtain xmin xmax ymin ymax where
    m: "np_min ?X = Inr xmin" "np_max ?X = Inr xmax" "np_min ?Y = Inr ymin" "np_max ?Y = Inr ymax"
    by (auto simp: normalize_def ax ay split: sum.splits)
  from m have Xne: "?X \<noteq> []" and Yne: "?Y \<noteq> []"
    and v: "xmin = Min (set ?X)" "xmax = Max (set ?X)" "ymin = Min (set ?Y)" "ymax = Max (set ?Y)"
    using np_min_Inr np_max_Inr by blast+
  define w where "w = xmax - xmin"
  define h where "h = ymax - ymin"
  define sc where "sc = compute_scale target w h"
  have w0: "0 \<le> w" unfolding w_def v using Xne by (simp add: Min_le_iff del: set_concat)
  have h0: "0 \<le> h" unfolding h_def v using Yne by (simp add: Min_le_iff del: set_concat)
  have sc0: "0 \<le> sc" unfolding sc_def using t w0 h0 by (rule compute_scale_nonneg)
  from n1 ne c m have out: "out = map (normalize_stroke xmin ymin sc) strokes"
    by (simp add: normalize_def ax ay Let_def w_def h_def sc_def)
  let ?X' = "map (\<lambda>x. (x - xmin) * sc) ?X" and ?Y' = "map (\<lambda>y. (y - ymin) * sc) ?Y"
  have rows': "\<forall>s\<in>set out. 2 \<le> length s"
    using rows by (simp add: out normalize_stroke_rows)
  have c': "collect_xy out [] [] = Inr (?X', ?Y')"
    using collect_xy_ok [OF rows', of "[]" "[]"] concat_rows_normalized [OF rows]
    by (simp add: out)
  have X'ne: "?X' \<noteq> []" and Y'ne: "?Y' \<noteq> []" using Xne Yne by simp_all
  have mins: "np_min ?X' = Inr 0" "np_min ?Y' = Inr 0"
    using np_min_Min [OF X'ne] np_min_Min [OF Y'ne] Min_affine [OF Xne sc0] Min_affine [OF Yne sc0]
    by (simp_all add: v)
  have maxs: "np_max ?X' = Inr (w * sc)" "np_max ?Y' = Inr (h * sc)"
    using np_max_Max [OF X'ne] np_max_Max [OF Y'ne] Max_affine [OF Xne sc0] Max_affine [OF Yne sc0]
    by (simp_all add: v w_def h_def)
  have sc': "compute_scale target (w * sc) (h * sc) = 1"
    unfolding sc_def using t w0 h0 by (rule compute_scale_second)
  have "out \<noteq> []" using ne by (simp add: out)
  then have "normalize target out
     = Inr (out, Some \<lparr>x_min = 0, y_min = 0, x_max = w * sc, y_max = h * sc,
                      scale = 1, width = w * sc, height = h * sc\<rparr>)"
    by (simp add: normalize_def c' [unfolded One_nat_def] mins [unfolded One_nat_def]
          maxs [unfolded One_nat_def] sc' normalize_stroke_unit Let_def)
  then show ?thesis by simp
qed

subsection \<open>Arrays of integer dtype\<close>

lemma float64_eq:
  assumes "2 ^ 52 \<le> \<bar>x\<bar> * 2 ^ k" "\<bar>x\<bar> * 2 ^ k < 2 ^ 53"
  shows "float64 x = of_int (round_half_even (x * 2 ^ k)) / 2 ^ k"
proof -
  from assms have x0: "x \<noteq> 0" by auto
  then have pos: "0 < \<bar>x\<bar>" by simp
  have "\<lfloor>log 2 \<bar>x\<bar>\<rfloor> = 52 - int k"
  proof (rule floor_unique)
    have "2 powr (52 - real k) \<le> \<bar>x\<bar>"
      using assms(1) by (simp add: powr_diff powr_realpow field_simps)
    then show "of_int (52 - int k) \<le> log 2 \<bar>x\<bar>"
      using pos by (simp add: le_log_iff)
    have "\<bar>x\<bar> < 2 powr (53 - real k)"
      using assms(2) by (simp add: powr_diff powr_realpow field_simps)
    then show "log 2 \<bar>x\<bar> < of_int (52 - int k) + 1"
      using pos by (simp add: log_less_iff)
  qed
  then have e: "\<lfloor>log 2 \<bar>x\<bar>\<rfloor> - 52 = - int k" by simp
  have p: "(2::real) powr (of_int (- int k)) = 1 / 2 ^ k"
    by (simp add: powr_minus powr_realpow field_simps)
  show ?thesis unfolding float64_def e Let_def p using x0 by simp
qed

lemma float64_zero: "float64 0 = 0"
  by (simp add: float64_def)

text \<open>
  Claim C9 on the code. The claim holds of the normalizer as it is written for arrays of
  floating-point dtype (\<open>normalize_twice_exact\<close>); on an array of integer dtype the two
  row assignments truncate, and normalization is not idempotent. The stroke with
  \<open>x = [0, 97]\<close>, \<open>y = [0, 0]\<close> and target size 100: the scale is the double nearest to
  \<open>100/97\<close>, which is below it, \<open>97\<close> times that scale is the double
  \<open>99.99999999999998\<dots>\<close>, and the cast stores 99; the second pass has the scale nearest
  to \<open>100/99\<close>, the product rounds to 100, and the stroke becomes \<open>x = [0, 100]\<close>: a
  whole unit away from the first output, whose larger dimension was not the target size.
\<close>

theorem normalize_int64_twice:
  "map_sum id fst (normalize_int64 100 [[[0, 97], [0, 0]]]) = Inr [[[0, 99], [0, 0]]]
   \<and> map_sum id fst (normalize_int64 100 [[[0, 99], [0, 0]]]) = Inr [[[0, 100], [0, 0]]]"
  by (simp add: normalize_int64_def np_min_int64_def np_max_int64_def compute_scale_int64_def
        normalize_stroke_int64_def float64_zero float64_eq [where k = 52] float64_eq [where k = 46]
        round_half_even_def c_trunc_def)

section \<open>What the normalizer writes\<close>

lemma normalize_stroke_frame:
  "length (normalize_stroke a b c s) = length s"
  "2 \<le> j \<Longrightarrow> normalize_stroke a b c s ! j = s ! j"
  by (simp_all add: normalize_stroke_def)

lemma copy_and_write:
  assumes "a < length h"
  shows "(let (b, h1) = np_copy h a;
              h2 = set_row h1 b 0 (map (\<lambda>x. (x - xmin) * sc) (h1 ! a ! 0));
              h3 = set_row h2 b 1 (map (\<lambda>y. (y - ymin) * sc) (h2 ! a ! 1))
          in (b, h3)) = (length h, h @ [normalize_stroke xmin ymin sc (h ! a)])"
  using assms by (simp add: np_copy_def set_row_def normalize_stroke_def nth_append)

lemma normalize_each_eq:
  "\<forall>a\<in>set as. a < length h \<Longrightarrow>
     normalize_each xmin ymin sc as acc h =
       (acc @ [length h..<length h + length as],
        h @ map (\<lambda>a. normalize_stroke xmin ymin sc (h ! a)) as)"
proof (induction as arbitrary: acc h)
  case Nil
  then show ?case by simp
next
  case (Cons a as)
  let ?h' = "h @ [normalize_stroke xmin ymin sc (h ! a)]"
  from Cons.prems have a: "a < length h" and as: "\<forall>a\<in>set as. a < length h" by simp_all
  from as have as': "\<forall>a\<in>set as. a < length ?h'" by auto
  have same: "map (\<lambda>a. normalize_stroke xmin ymin sc (?h' ! a)) as
            = map (\<lambda>a. normalize_stroke xmin ymin sc (h ! a)) as"
    using as by (auto simp: nth_append)
  have "normalize_each xmin ymin sc (a # as) acc h
        = normalize_each xmin ymin sc as (acc @ [length h]) ?h'"
    using copy_and_write [OF a, of xmin sc ymin]
    by (simp add: Let_def split: prod.splits)
  also have "\<dots> = ((acc @ [length h]) @ [length ?h'..<length ?h' + length as],
                     ?h' @ map (\<lambda>a. normalize_stroke xmin ymin sc (?h' ! a)) as)"
    by (rule Cons.IH [OF as'])
  also have "\<dots> = (acc @ [length h..<length h + length (a # as)],
                     h @ map (\<lambda>a. normalize_stroke xmin ymin sc (h ! a)) (a # as))"
  proof -
    have "[length h..<length h + Suc (length as)]
          = length h # [Suc (length h)..<length h + Suc (length as)]"
      by (rule upt_conv_Cons) simp
    then show ?thesis by (simp add: same del: upt_Suc)
  qed
  finally show ?case .
qed

lemma normalize_store_refines:
  assumes "\<forall>a\<in>set strokes. a < length h"
    and "normalize_store target strokes h = Inr ((out, meta), h')"
  shows "\<exists>res. normalize target (map ((!) h) strokes) = Inr (res, meta)
           \<and> out = [length h..<length h + length strokes] \<and> h' = h @ res
           \<and> length res = length strokes
           \<and> (\<forall>i<length strokes. length (res ! i) = length (h ! (strokes ! i))
                 \<and> (\<forall>j\<ge>2. res ! i ! j = h ! (strokes ! i) ! j))"
proof (cases "strokes = []")
  case True
  with assms(2) show ?thesis by (simp add: normalize_store_def normalize_def)
next
  case False
  then show ?thesis
    using assms
    by (auto simp: normalize_store_def normalize_def Let_def normalize_each_eq
          normalize_stroke_frame comp_def
        split: sum.splits prod.splits)
qed

text \<open>
  Claim C10. When the normalizer returns, every array that was in the store before the
  call is unchanged (the caller's inputs are not mutated), each returned stroke is a
  new array with as many rows as its input, every row from the third on is the input's
  row, and the returned arrays hold what the value-level \<open>normalize\<close> computes.
\<close>

theorem normalize_store_frame:
  assumes "\<forall>a\<in>set strokes. a < length h"
    and "normalize_store target strokes h = Inr ((out, meta), h')"
  shows "take (length h) h' = h
       \<and> length out = length strokes \<and> distinct out
       \<and> (\<forall>i<length strokes.
            length h \<le> out ! i \<and> out ! i < length h'
            \<and> length (h' ! (out ! i)) = length (h ! (strokes ! i))
            \<and> (\<forall>j\<ge>2. h' ! (out ! i) ! j = h ! (strokes ! i) ! j))
       \<and> normalize target (map ((!) h) strokes) = Inr (map ((!) h') out, meta)"
proof -
  from normalize_store_refines [OF assms] obtain res where
    r: "normalize target (map ((!) h) strokes) = Inr (res, meta)"
       "out = [length h..<length h + length strokes]" "h' = h @ res"
       "length res = length strokes"
       "\<forall>i<length strokes. length (res ! i) = length (h ! (strokes ! i))
                 \<and> (\<forall>j\<ge>2. res ! i ! j = h ! (strokes ! i) ! j)"
    by blast
  have "map ((!) h') out = res"
    using r(2,3,4) by (auto intro!: nth_equalityI simp: nth_append)
  with r show ?thesis by (auto simp: nth_append)
qed

theorem normalize_store_frame_witness:
  "list_all (\<lambda>a. a < length [[[0, 10], [5, 5], [7, 8::real]]]) [0]
   \<and> normalize_store 100 [0] [[[0, 10], [5, 5], [7, 8]]]
       = Inr (([1], Some \<lparr>x_min = 0, y_min = 5, x_max = 10, y_max = 5, scale = 10,
                           width = 10, height = 0\<rparr>),
              [[[0, 10], [5, 5], [7, 8]], [[0, 100], [0, 0], [7, 8]]])
   \<and> take 1 [[[0, 10], [5, 5], [7, 8::real]], [[0, 100], [0, 0], [7, 8]]]
       = [[[0, 10], [5, 5], [7, 8]]]"
proof -
  have n: "normalize_store 100 [0] [[[0, 10], [5, 5], [7, 8]]]
       = Inr (([1], Some \<lparr>x_min = 0, y_min = 5, x_max = 10, y_max = 5, scale = 10,
                           width = 10, height = 0\<rparr>),
              [[[0, 10], [5, 5], [7, 8]], [[0, 100], [0, 0], [7, 8]]])"
    by (simp add: normalize_store_def np_min_def np_max_def compute_scale_def
          np_copy_def set_row_def)
  from normalize_store_frame [OF _ n] n show ?thesis by simp
qed

section \<open>Reversing a stroke\<close>















section \<open>The random source and the genetic operators\<close>

lemma shuffle_from_props:
  "i < length xs \<or> i = 0 \<Longrightarrow>
     length (fst (shuffle_from i xs g)) = length xs \<and> set (fst (shuffle_from i xs g)) = set xs"
proof (induction i xs g rule: shuffle_from.induct)
  case (1 xs g)
  then show ?case by simp
next
  case (2 i xs g)
  obtain j g1 where r: "rk_interval (Suc i) g = (j, g1)" by (cases "rk_interval (Suc i) g")
  then have j: "j < Suc (Suc i)" by (auto simp: rk_interval_def next_raw_def)
  from 2(2) have i: "Suc i < length xs" by simp
  with j have jl: "j < length xs" by simp
  let ?ys = "xs[Suc i := xs ! j, j := xs ! Suc i]"
  have "length ?ys = length xs" "set ?ys = set xs"
    using set_swap [OF i jl] by simp_all
  moreover have "i < length ?ys \<or> i = 0" using i by simp
  ultimately show ?case using 2(1) [OF r [symmetric] refl] r by simp
qed

lemma shuffle_props:
  "length (fst (shuffle xs g)) = length xs" "set (fst (shuffle xs g)) = set xs"
proof -
  have "length xs - 1 < length xs \<or> length xs - 1 = 0" by (cases xs) simp_all
  from shuffle_from_props [OF this, of g]
  show "length (fst (shuffle xs g)) = length xs" "set (fst (shuffle xs g)) = set xs"
    by (simp_all add: shuffle_def)
qed

lemma choice_Inr:
  assumes "choice n sz g = Inr (idxs, g')"
  shows "set idxs \<subseteq> {0..<n}" and "length idxs = nat sz" and "0 \<le> sz"
proof -
  obtain perm g1 where s: "shuffle [0..<n] g = (perm, g1)" by (cases "shuffle [0..<n] g")
  with shuffle_props [of "[0..<n]" g] have p: "length perm = n" "set perm = {0..<n}" by simp_all
  from assms s have i: "idxs = take (nat sz) perm" and sz: "0 \<le> sz" "sz \<le> int n"
    by (auto simp: choice_def split: if_splits)
  from i p show "set idxs \<subseteq> {0..<n}" using set_take_subset [of "nat sz" perm] by simp
  from i p sz show "length idxs = nat sz" by simp
  from sz show "0 \<le> sz" by simp
qed

lemma choice_ok:
  assumes "0 \<le> sz" and "sz \<le> int n" and "0 < n"
  shows "\<exists>idxs g'. choice n sz g = Inr (idxs, g')"
  using assms by (auto simp: choice_def split: prod.splits)

lemma randint_Inr:
  assumes "randint lo hi g = Inr (v, g')"
  shows "lo \<le> v \<and> v < hi"
proof -
  from assms have lt: "lo < hi" and v: "v = lo + int (g 0 mod nat (hi - lo))"
    by (auto simp: randint_def next_raw_def split: if_splits)
  from lt have "g 0 mod nat (hi - lo) < nat (hi - lo)" by simp
  with lt v show ?thesis by linarith
qed

lemma randint_ok: "lo < hi \<Longrightarrow> \<exists>v g'. randint lo hi g = Inr (v, g')"
  by (simp add: randint_def next_raw_def)

lemma randint_n_Inr:
  "randint_n lo hi n g = Inr (vs, g') \<Longrightarrow> length vs = n \<and> (\<forall>v\<in>set vs. lo \<le> v \<and> v < hi)"
proof (induction n arbitrary: g vs)
  case 0
  then show ?case by (auto split: if_splits)
next
  case (Suc n)
  then show ?case
    by (fastforce split: sum.splits prod.splits dest: randint_Inr)
qed

lemma randint_n_ok: "lo < hi \<Longrightarrow> \<exists>vs g'. randint_n lo hi n g = Inr (vs, g')"
proof (induction n arbitrary: g)
  case 0
  then show ?case by simp
next
  case (Suc n)
  from randint_ok [OF Suc.prems] obtain v g1 where r: "randint lo hi g = Inr (v, g1)" by blast
  from Suc.IH [OF Suc.prems] obtain vs g2 where "randint_n lo hi n g1 = Inr (vs, g2)" by blast
  with r show ?case by simp
qed

lemma valid_chromosomeI:
  "length c = W \<Longrightarrow> (\<And>x. x \<in> set c \<Longrightarrow> 0 \<le> x \<and> x \<le> int R) \<Longrightarrow> valid_chromosome W R c"
  by (simp add: valid_chromosome_def list_all_iff)

lemma valid_chromosomeD:
  "valid_chromosome W R c \<Longrightarrow> length c = W"
  "valid_chromosome W R c \<Longrightarrow> x \<in> set c \<Longrightarrow> 0 \<le> x \<and> x \<le> int R"
  by (simp_all add: valid_chromosome_def list_all_iff)

lemma create_chromosome_valid:
  assumes "create_chromosome ga g = Inr (c, g')"
  shows "valid_chromosome (n_written ga) (n_reference ga) c"
proof -
  let ?W = "n_written ga" and ?R = "n_reference ga"
  consider "?W = ?R" | "?W > ?R" | "?W < ?R" by linarith
  then show ?thesis
  proof cases
    case 1
    with assms have c: "c = fst (shuffle (map int [1..<?R + 1]) g)"
      by (auto simp: create_chromosome_def)
    show ?thesis
      by (rule valid_chromosomeI) (use 1 in \<open>auto simp: c shuffle_props\<close>)
  next
    case 2
    with assms have c: "c = fst (shuffle (map int [1..<?R + 1] @ replicate (nat (int ?W - int ?R)) 0) g)"
      by (auto simp: create_chromosome_def Let_def)
    show ?thesis
      by (rule valid_chromosomeI) (use 2 in \<open>auto simp: c shuffle_props\<close>)
  next
    case 3
    with assms have "randint_n 1 (int ?R + 1) ?W g = Inr (c, g')"
      by (auto simp: create_chromosome_def Let_def)
    from randint_n_Inr [OF this] show ?thesis
      by (intro valid_chromosomeI) auto
  qed
qed

lemma create_chromosome_ok: "\<exists>c g'. create_chromosome ga g = Inr (c, g')"
proof (cases "n_written ga < n_reference ga")
  case True
  then have "(1::int) < int (n_reference ga) + 1" by simp
  from randint_n_ok [OF this, of "n_written ga" g] True show ?thesis
    by (auto simp: create_chromosome_def Let_def)
next
  case False
  then show ?thesis
    by (cases "shuffle (map int [1..<n_reference ga + 1]) g";
        cases "shuffle (map int [1..<n_reference ga + 1]
                 @ replicate (nat (int (n_written ga) - int (n_reference ga))) 0) g")
       (auto simp: create_chromosome_def Let_def)
qed

lemma create_population_Inr:
  "create_population ga n g = Inr (pop, g') \<Longrightarrow>
     length pop = n \<and> (\<forall>c\<in>set pop. valid_chromosome (n_written ga) (n_reference ga) c)"
proof (induction n arbitrary: g pop)
  case 0
  then show ?case by simp
next
  case (Suc n)
  then show ?case
    by (fastforce split: sum.splits prod.splits dest: create_chromosome_valid)
qed

lemma create_population_ok: "\<exists>pop g'. create_population ga n g = Inr (pop, g')"
proof (induction n arbitrary: g)
  case 0
  then show ?case by simp
next
  case (Suc n)
  from create_chromosome_ok obtain c g1 where c: "create_chromosome ga g = Inr (c, g1)" by blast
  from Suc obtain cs g2 where "create_population ga n g1 = Inr (cs, g2)" by blast
  with c show ?case by simp
qed

lemma py_max_key_mem: "py_max_key key x xs \<in> set (x # xs)"
proof -
  have "fold (\<lambda>y best. if key y > key best then y else best) xs x \<in> set (x # xs)"
    by (induction xs arbitrary: x) auto
  then show ?thesis by (simp add: py_max_key_def)
qed

lemma tournament_selection_mem:
  assumes "tournament_selection ga pop fitnesses g = Inr (c, g')"
  shows "c \<in> set pop"
proof -
  from assms obtain idxs g1 where ch: "choice (length pop) (tournament_size ga) g = Inr (idxs, g1)"
    by (auto simp: tournament_selection_def split: sum.splits)
  let ?t = "map (\<lambda>i. (pop ! i, fitnesses ! i)) idxs"
  from assms ch obtain t ts where t: "?t = t # ts" and c: "c = fst (py_max_key snd t ts)"
    by (auto simp: tournament_selection_def split: list.splits)
  have "py_max_key snd t ts \<in> set ?t" using py_max_key_mem [of snd t ts] t by simp
  then obtain i where "i \<in> set idxs" "py_max_key snd t ts = (pop ! i, fitnesses ! i)" by auto
  with choice_Inr(1) [OF ch] c show ?thesis by auto
qed

lemma tournament_selection_ok:
  assumes "1 \<le> tournament_size ga" and "tournament_size ga \<le> int (length pop)"
  shows "\<exists>c g'. tournament_selection ga pop fitnesses g = Inr (c, g')"
proof -
  from assms have "0 < length pop" "0 \<le> tournament_size ga" by linarith+
  from choice_ok [OF this(2) assms(2) this(1), of g] obtain idxs g1 where
    ch: "choice (length pop) (tournament_size ga) g = Inr (idxs, g1)" by blast
  from choice_Inr(2) [OF ch] assms(1) have "idxs \<noteq> []" by auto
  then show ?thesis
    by (cases idxs) (simp_all add: tournament_selection_def ch)
qed

lemma crossover_valid:
  assumes "crossover ga p1 p2 g = Inr ((c1, c2), g')"
    and "valid_chromosome W R p1" and "valid_chromosome W R p2"
  shows "valid_chromosome W R c1 \<and> valid_chromosome W R c2"
proof -
  have cut: "valid_chromosome W R (take n p1 @ drop n p2)"
            "valid_chromosome W R (take n p2 @ drop n p1)" for n
  proof -
    from assms(2,3) have l: "length p1 = W" "length p2 = W"
      and b: "\<And>x. x \<in> set p1 \<union> set p2 \<Longrightarrow> 0 \<le> x \<and> x \<le> int R"
      by (auto dest: valid_chromosomeD)
    have "set (take n p1) \<subseteq> set p1" "set (drop n p2) \<subseteq> set p2"
         "set (take n p2) \<subseteq> set p2" "set (drop n p1) \<subseteq> set p1"
      by (simp_all add: set_take_subset set_drop_subset)
    with b have b': "\<And>x. x \<in> set (take n p1 @ drop n p2) \<Longrightarrow> 0 \<le> x \<and> x \<le> int R"
      "\<And>x. x \<in> set (take n p2 @ drop n p1) \<Longrightarrow> 0 \<le> x \<and> x \<le> int R"
      by auto
    from l have "length (take n p1 @ drop n p2) = W" "length (take n p2 @ drop n p1) = W"
      by auto
    with b' show "valid_chromosome W R (take n p1 @ drop n p2)"
            "valid_chromosome W R (take n p2 @ drop n p1)"
      by (blast intro: valid_chromosomeI)+
  qed
  from assms(1) show ?thesis
    using assms(2,3) cut
    by (auto simp: crossover_def Let_def split: if_splits prod.splits sum.splits)
qed

lemma crossover_ok: "\<exists>c1 c2 g'. crossover ga p1 p2 g = Inr ((c1, c2), g')"
proof (cases "length p1 < 2")
  case True
  then show ?thesis by (simp add: crossover_def)
next
  case False
  obtain u g1 where u: "random_sample g = (u, g1)" by (cases "random_sample g")
  from False have "(1::int) < int (length p1)" by simp
  from randint_ok [OF this, of g1] obtain v g2 where "randint 1 (int (length p1)) g1 = Inr (v, g2)"
    by blast
  with False u show ?thesis by (simp add: crossover_def)
qed

lemma mutate_valid:
  "mutate ga c g = Inr (c', g') \<Longrightarrow> R = n_reference ga \<Longrightarrow>
     valid_chromosome W R c \<Longrightarrow> valid_chromosome W R c'"
proof (induction c arbitrary: g c' W)
  case Nil
  then show ?case by simp
next
  case (Cons x xs)
  obtain u g1 where u: "random_sample g = (u, g1)" by (cases "random_sample g")
  from Cons.prems(3) have vx: "0 \<le> x \<and> x \<le> int R"
    and vxs: "valid_chromosome (W - 1) R xs"
    by (auto simp: valid_chromosome_def)
  from Cons.prems(3) have W: "W = Suc (length xs)" by (auto simp: valid_chromosome_def)
  show ?case
  proof (cases "u < mutation_rate ga")
    case True
    with Cons.prems(1) u obtain v g2 ys where
      r: "randint 0 (int (n_reference ga) + 1) g1 = Inr (v, g2)"
      and m: "mutate ga xs g2 = Inr (ys, g')" and c': "c' = v # ys"
      by (auto split: sum.splits)
    from Cons.IH [OF m Cons.prems(2) vxs] randint_Inr [OF r] Cons.prems(2) W
    show ?thesis by (auto simp: c' valid_chromosome_def)
  next
    case False
    with Cons.prems(1) u obtain ys where
      m: "mutate ga xs g1 = Inr (ys, g')" and c': "c' = x # ys"
      by (auto split: sum.splits)
    from Cons.IH [OF m Cons.prems(2) vxs] vx W
    show ?thesis by (auto simp: c' valid_chromosome_def)
  qed
qed

lemma mutate_ok: "\<exists>c' g'. mutate ga c g = Inr (c', g')"
proof (induction c arbitrary: g)
  case Nil
  then show ?case by simp
next
  case (Cons x xs)
  obtain u g1 where u: "random_sample g = (u, g1)" by (cases "random_sample g")
  have "(0::int) < int (n_reference ga) + 1" by simp
  from randint_ok [OF this, of g1] obtain v g2 where
    r: "randint 0 (int (n_reference ga) + 1) g1 = Inr (v, g2)" by blast
  from Cons [of g2] obtain ys g3 where m2: "mutate ga xs g2 = Inr (ys, g3)" by blast
  from Cons [of g1] obtain zs g4 where m1: "mutate ga xs g1 = Inr (zs, g4)" by blast
  show ?case using u r m1 m2 by simp
qed

section \<open>Breeding and one generation\<close>

lemma breed_pair_valid:
  assumes "breed_pair ga pop fitnesses g = Inr ((c1, c2), g')"
    and "\<forall>c\<in>set pop. valid_chromosome W (n_reference ga) c"
  shows "valid_chromosome W (n_reference ga) c1 \<and> valid_chromosome W (n_reference ga) c2"
proof -
  from assms(1) obtain p1 g1 p2 g2 d1 d2 g3 g4 where
    t1: "tournament_selection ga pop fitnesses g = Inr (p1, g1)"
    and t2: "tournament_selection ga pop fitnesses g1 = Inr (p2, g2)"
    and x: "crossover ga p1 p2 g2 = Inr ((d1, d2), g3)"
    and m1: "mutate ga d1 g3 = Inr (c1, g4)"
    and m2: "mutate ga d2 g4 = Inr (c2, g')"
    by (auto simp: breed_pair_def split: sum.splits prod.splits)
  from tournament_selection_mem [OF t1] tournament_selection_mem [OF t2] assms(2)
  have "valid_chromosome W (n_reference ga) p1" "valid_chromosome W (n_reference ga) p2"
    by blast+
  from crossover_valid [OF x this]
  have "valid_chromosome W (n_reference ga) d1" "valid_chromosome W (n_reference ga) d2"
    by blast+
  with mutate_valid [OF m1 refl] mutate_valid [OF m2 refl] show ?thesis by blast
qed

lemma breed_pair_ok:
  assumes "1 \<le> tournament_size ga" and "tournament_size ga \<le> int (length pop)"
  shows "\<exists>c1 c2 g'. breed_pair ga pop fitnesses g = Inr ((c1, c2), g')"
proof -
  from tournament_selection_ok [OF assms] obtain p1 g1 where
    t1: "tournament_selection ga pop fitnesses g = Inr (p1, g1)" by blast
  from tournament_selection_ok [OF assms] obtain p2 g2 where
    t2: "tournament_selection ga pop fitnesses g1 = Inr (p2, g2)" by blast
  from crossover_ok obtain d1 d2 g3 where x: "crossover ga p1 p2 g2 = Inr ((d1, d2), g3)"
    by blast
  from mutate_ok obtain c1 g4 where m1: "mutate ga d1 g3 = Inr (c1, g4)" by blast
  from mutate_ok obtain c2 g5 where m2: "mutate ga d2 g4 = Inr (c2, g5)" by blast
  show ?thesis by (simp add: breed_pair_def t1 t2 x m1 m2)
qed

lemma breed_Inr:
  "breed ga pop fitnesses new g = Inr (res, g') \<Longrightarrow>
   \<forall>c\<in>set pop. valid_chromosome W (n_reference ga) c \<Longrightarrow>
     \<exists>extra. res = new @ extra \<and> (\<forall>c\<in>set extra. valid_chromosome W (n_reference ga) c)
        \<and> population_size ga \<le> int (length res)"
proof (induction ga pop fitnesses new g arbitrary: res rule: breed.induct)
  case (1 ga pop fitnesses new g)
  show ?case
  proof (cases "int (length new) < population_size ga")
    case False
    with 1(2) show ?thesis by (simp add: breed.simps)
  next
    case True
    with 1(2) obtain c1 c2 g1 where
      bp: "breed_pair ga pop fitnesses g = Inr ((c1, c2), g1)"
      and b: "breed ga pop fitnesses (new @ [c1, c2]) g1 = Inr (res, g')"
      by (subst (asm) breed.simps) (auto split: sum.splits prod.splits)
    from 1(1) [OF True bp refl refl b 1(3)] obtain extra where
      e: "res = (new @ [c1, c2]) @ extra" "\<forall>c\<in>set extra. valid_chromosome W (n_reference ga) c"
         "population_size ga \<le> int (length res)" by blast
    from breed_pair_valid [OF bp 1(3)] e show ?thesis
      by (intro exI [of _ "[c1, c2] @ extra"]) auto
  qed
qed

lemma breed_ok:
  "population_size ga \<le> int (length new)
     \<or> (1 \<le> tournament_size ga \<and> tournament_size ga \<le> int (length pop)) \<Longrightarrow>
   \<exists>res g'. breed ga pop fitnesses new g = Inr (res, g')"
proof (induction ga pop fitnesses new g rule: breed.induct)
  case (1 ga pop fitnesses new g)
  show ?case
  proof (cases "int (length new) < population_size ga")
    case False
    then show ?thesis by (simp add: breed.simps)
  next
    case True
    with 1(2) have t: "1 \<le> tournament_size ga" "tournament_size ga \<le> int (length pop)"
      by auto
    from breed_pair_ok [OF t] obtain c1 c2 g1 where
      bp: "breed_pair ga pop fitnesses g = Inr ((c1, c2), g1)" by blast
    from 1(1) [OF True bp refl refl] t obtain res g' where
      "breed ga pop fitnesses (new @ [c1, c2]) g1 = Inr (res, g')" by blast
    with True bp show ?thesis by (subst breed.simps) simp
  qed
qed

lemma evaluate_all_Inr:
  "evaluate_all ga pop wfs rfs = Inr fits \<Longrightarrow>
     length fits = length pop
     \<and> (\<forall>i<length pop. evaluate_chromosome ga (pop ! i) wfs rfs = Inr (fits ! i))"
proof (induction pop arbitrary: fits)
  case Nil
  then show ?case by simp
next
  case (Cons c cs)
  then obtain f fs where e: "evaluate_chromosome ga c wfs rfs = Inr f"
    and es: "evaluate_all ga cs wfs rfs = Inr fs" and fits: "fits = f # fs"
    by (auto split: sum.splits)
  from Cons.IH [OF es] e show ?case
    by (auto simp: fits nth_Cons split: nat.splits)
qed

lemma evaluate_all_ok:
  "\<forall>c\<in>set pop. \<exists>f. evaluate_chromosome ga c wfs rfs = Inr f \<Longrightarrow>
     \<exists>fits. evaluate_all ga pop wfs rfs = Inr fits"
  by (induction pop) (auto split: sum.splits)

lemma py_index_found:
  "v \<in> set xs \<Longrightarrow> py_index xs v < length xs \<and> xs ! py_index xs v = v"
  by (induction xs) auto

lemma fold_max_Max: "fold max fs (f::real) = Max (set (f # fs))"
  by (simp add: Max.set_eq_fold [symmetric])

lemma generation_cases:
  assumes "generation ga wfs rfs s = Inr r"
  obtains fits gb s2 where
    "evaluate_all ga (population s) wfs rfs = Inr fits" "fits \<noteq> []"
    "gb = Max (set fits)"
    "best_fitness_history s2 = best_fitness_history s @ [gb]"
    "best_fitness s2 = max (best_fitness s) gb"
    "best_chromosome s2 = (if gb > best_fitness s
                           then Some (population s ! py_index fits gb) else best_chromosome s)"
    "population s2 = population s" "rng_state s2 = rng_state s"
    "generations_without_improvement s2 =
       (if gb > best_fitness s then 0 else generations_without_improvement s + 1)"
    "(r = Break s2 \<and> generations_without_improvement s2 \<ge> convergence_generations ga)
     \<or> (\<exists>bc newp g'. generations_without_improvement s2 < convergence_generations ga
           \<and> best_chromosome s2 = Some bc
           \<and> breed ga (population s) fits [bc] (rng_state s) = Inr (newp, g')
           \<and> r = Continue (s2\<lparr>population := py_slice_to newp (population_size ga),
                               rng_state := g'\<rparr>))"
proof -
  from assms obtain f fs where
    ev: "evaluate_all ga (population s) wfs rfs = Inr (f # fs)"
    by (auto simp: generation_def split: sum.splits list.splits)
  define gb where "gb = fold max fs f"
  define s1 where "s1 = s\<lparr>best_fitness_history := best_fitness_history s @ [gb],
                         avg_fitness_history := avg_fitness_history s @ [np_mean (f # fs)]\<rparr>"
  define s2 where "s2 = (if gb > best_fitness s1
                        then s1\<lparr>best_fitness := gb,
                                best_chromosome := Some (population s ! py_index (f # fs) gb),
                                generations_without_improvement := 0\<rparr>
                        else s1\<lparr>generations_without_improvement :=
                                  generations_without_improvement s1 + 1\<rparr>)"
  have r: "(if generations_without_improvement s2 \<ge> convergence_generations ga
            then Inr (Break s2)
            else (case best_chromosome s2 of
                     None \<Rightarrow> Inl AttributeError
                   | Some bc \<Rightarrow>
                       (case breed ga (population s) (f # fs) [bc] (rng_state s2) of
                          Inl e \<Rightarrow> Inl e
                        | Inr (new_population, g') \<Rightarrow>
                            Inr (Continue
                              (s2\<lparr>population :=
                                     py_slice_to new_population (population_size ga),
                                   rng_state := g'\<rparr>))))) = Inr r"
    using assms unfolding generation_def ev Let_def gb_def s1_def s2_def
    by (simp only: sum.case list.case)
  have rs: "rng_state s2 = rng_state s" by (simp add: s2_def s1_def)
  show thesis
  proof (rule that [of "f # fs" gb s2])
    show "evaluate_all ga (population s) wfs rfs = Inr (f # fs)" by (rule ev)
    show "f # fs \<noteq> []" by simp
    show "gb = Max (set (f # fs))" by (simp only: gb_def fold_max_Max)
    show "best_fitness_history s2 = best_fitness_history s @ [gb]"
      by (simp add: s2_def s1_def)
    show "best_fitness s2 = max (best_fitness s) gb" by (simp add: s2_def s1_def max_def)
    show "best_chromosome s2 = (if gb > best_fitness s
             then Some (population s ! py_index (f # fs) gb) else best_chromosome s)"
      by (simp add: s2_def s1_def)
    show "population s2 = population s" by (simp add: s2_def s1_def)
    show "rng_state s2 = rng_state s" by (rule rs)
    show "generations_without_improvement s2 =
       (if gb > best_fitness s then 0 else generations_without_improvement s + 1)"
      by (simp add: s2_def s1_def)
    show "(r = Break s2 \<and> generations_without_improvement s2 \<ge> convergence_generations ga)
     \<or> (\<exists>bc newp g'. generations_without_improvement s2 < convergence_generations ga
           \<and> best_chromosome s2 = Some bc
           \<and> breed ga (population s) (f # fs) [bc] (rng_state s) = Inr (newp, g')
           \<and> r = Continue (s2\<lparr>population := py_slice_to newp (population_size ga),
                               rng_state := g'\<rparr>))"
      using r unfolding rs
      by (auto split: if_splits option.splits sum.splits prod.splits)
  qed
qed

section \<open>The invariant of the generation loop\<close>

lemma ga_inv_post: "ga_inv ga wfs rfs s \<Longrightarrow> ga_post ga wfs rfs s"
  by (simp add: ga_inv_def ga_post_def)

lemma sorted_snoc_bound:
  fixes hs :: "real list"
  shows "sorted hs \<Longrightarrow> \<forall>h\<in>set hs. h \<le> b \<Longrightarrow> sorted (hs @ [b])"
  by (simp add: sorted_append)

lemma py_slice_to_take: "0 \<le> n \<Longrightarrow> py_slice_to xs n = take (nat n) xs"
  by (simp add: py_slice_to_def)

lemma generation_inv:
  assumes inv: "ga_inv ga wfs rfs s" and gen: "generation ga wfs rfs s = Inr r"
  shows "case r of Continue s' \<Rightarrow> ga_inv ga wfs rfs s' | Break s' \<Rightarrow> ga_post ga wfs rfs s'"
proof -
  let ?W = "n_written ga" and ?R = "n_reference ga" and ?P = "population_size ga"
  from gen obtain fits gb s2 where
    ev: "evaluate_all ga (population s) wfs rfs = Inr fits" and ne: "fits \<noteq> []"
    and gb: "gb = Max (set fits)"
    and h2: "best_fitness_history s2 = best_fitness_history s @ [gb]"
    and bf2: "best_fitness s2 = max (best_fitness s) gb"
    and bc2: "best_chromosome s2 = (if gb > best_fitness s
                           then Some (population s ! py_index fits gb) else best_chromosome s)"
    and p2: "population s2 = population s"
    and r: "(r = Break s2 \<and> generations_without_improvement s2 \<ge> convergence_generations ga)
     \<or> (\<exists>bc newp g'. generations_without_improvement s2 < convergence_generations ga
           \<and> best_chromosome s2 = Some bc
           \<and> breed ga (population s) fits [bc] (rng_state s) = Inr (newp, g')
           \<and> r = Continue (s2\<lparr>population := py_slice_to newp ?P, rng_state := g'\<rparr>))"
    by (rule generation_cases) blast
  from inv have len: "length (population s) = nat ?P"
    and val: "\<forall>c\<in>set (population s). valid_chromosome ?W ?R c"
    and best: "\<And>bc. best_chromosome s = Some bc \<Longrightarrow>
                 valid_chromosome ?W ?R bc \<and> evaluate_chromosome ga bc wfs rfs = Inr (best_fitness s)"
    and srt: "sorted (best_fitness_history s)"
    and bnd: "\<forall>h\<in>set (best_fitness_history s). h \<le> best_fitness s"
    and elite: "best_fitness_history s = [] \<or>
        (population s \<noteq> []
         \<and> evaluate_chromosome ga (hd (population s)) wfs rfs = Inr (best_fitness s))"
    by (auto simp: ga_inv_def list_all_iff split: option.splits)
  from evaluate_all_Inr [OF ev] have fl: "length fits = length (population s)"
    and fe: "\<And>i. i < length (population s) \<Longrightarrow>
               evaluate_chromosome ga (population s ! i) wfs rfs = Inr (fits ! i)"
    by simp_all
  from ne fl have pne: "population s \<noteq> []" by auto
  with len have P1: "1 \<le> ?P" by (cases "?P \<le> 0") auto
  have gbin: "gb \<in> set fits" unfolding gb using ne by (intro Max_in) simp_all
  have gbmax: "\<And>x. x \<in> set fits \<Longrightarrow> x \<le> gb" unfolding gb by simp
  \<comment> \<open>the history stays ascending\<close>
  have hb: "\<forall>h\<in>set (best_fitness_history s). h \<le> gb"
  proof (cases "best_fitness_history s = []")
    case True
    then show ?thesis by simp
  next
    case False
    with elite have "evaluate_chromosome ga (hd (population s)) wfs rfs = Inr (best_fitness s)"
      by simp
    moreover from pne have "hd (population s) = population s ! 0" by (simp add: hd_conv_nth)
    moreover from pne have "evaluate_chromosome ga (population s ! 0) wfs rfs = Inr (fits ! 0)"
      by (intro fe) simp
    ultimately have "best_fitness s = fits ! 0" by simp
    moreover from ne have "fits ! 0 \<in> set fits" by simp
    ultimately have "best_fitness s \<le> gb" using gbmax by simp
    with bnd show ?thesis by force
  qed
  have srt2: "sorted (best_fitness_history s2)"
    unfolding h2 using srt hb by (rule sorted_snoc_bound)
  have bnd2: "\<forall>h\<in>set (best_fitness_history s2). h \<le> best_fitness s2"
    unfolding h2 bf2 using bnd by (auto simp: max_def)
  \<comment> \<open>the best chromosome and its fitness\<close>
  have best2: "valid_chromosome ?W ?R bc \<and> evaluate_chromosome ga bc wfs rfs = Inr (best_fitness s2)"
    if "best_chromosome s2 = Some bc" for bc
  proof (cases "gb > best_fitness s")
    case True
    let ?i = "py_index fits gb"
    from py_index_found [OF gbin] fl have i: "?i < length (population s)" "fits ! ?i = gb"
      by simp_all
    from that True have "bc = population s ! ?i" by (simp add: bc2)
    with i fe [OF i(1)] val True show ?thesis by (simp add: bf2 max_def)
  next
    case False
    with that have "best_chromosome s = Some bc" by (simp add: bc2)
    from best [OF this] False show ?thesis by (simp add: bf2 max_def)
  qed
  from r show ?thesis
  proof (elim disjE conjE exE)
    assume "r = Break s2"
    then show ?thesis using best2 srt2 by (auto simp: ga_post_def split: option.splits)
  next
    fix bc newp g'
    assume bc: "best_chromosome s2 = Some bc"
      and br: "breed ga (population s) fits [bc] (rng_state s) = Inr (newp, g')"
      and rc: "r = Continue (s2\<lparr>population := py_slice_to newp ?P, rng_state := g'\<rparr>)"
    from breed_Inr [OF br val] obtain extra where
      ex: "newp = [bc] @ extra" "\<forall>c\<in>set extra. valid_chromosome ?W ?R c"
          "?P \<le> int (length newp)" by blast
    let ?pop = "py_slice_to newp ?P"
    from P1 have pt: "?pop = take (nat ?P) newp" by (simp add: py_slice_to_take)
    from ex(3) P1 have l: "length ?pop = nat ?P" unfolding pt by simp
    from P1 ex(1) have hd: "?pop \<noteq> []" "hd ?pop = bc"
      unfolding pt by (cases "nat ?P"; simp)+
    have "set ?pop \<subseteq> set newp" unfolding pt by (rule set_take_subset)
    with ex(1,2) best2 [OF bc] have v: "\<forall>c\<in>set ?pop. valid_chromosome ?W ?R c" by auto
    show ?thesis
      using l v hd best2 [OF bc] srt2 bnd2 bc
      by (simp add: rc ga_inv_def list_all_iff)
  qed
qed

lemma evolve_loop_post:
  "ga_inv ga wfs rfs s \<Longrightarrow> evolve_loop ga wfs rfs k s = Inr s' \<Longrightarrow> ga_post ga wfs rfs s'"
proof (induction k arbitrary: s)
  case 0
  then show ?case by (simp add: ga_inv_post)
next
  case (Suc k)
  from Suc.prems(2) obtain r where g: "generation ga wfs rfs s = Inr r"
    by (auto split: sum.splits)
  from generation_inv [OF Suc.prems(1) g] Suc.prems(2) g Suc.IH show ?case
    by (cases r) auto
qed

lemma ga_inv_initial:
  assumes "create_population ga (nat (population_size ga)) g = Inr (pop, g1)"
  shows "ga_inv ga wfs rfs \<lparr>population = pop, best_chromosome = None, best_fitness = 0,
            generations_without_improvement = 0, best_fitness_history = [],
            avg_fitness_history = [], rng_state = g1\<rparr>"
  using create_population_Inr [OF assms] by (simp add: ga_inv_def list_all_iff)

lemma evolve_post:
  assumes "evolve ga wfs rfs g = Inr res"
  shows "sorted (history_best_fitness res)"
    and "generations res = length (history_best_fitness res)"
    and "mapping res = Some m \<Longrightarrow> valid_chromosome (n_written ga) (n_reference ga) m
            \<and> evaluate_chromosome ga m wfs rfs = Inr (fitness res)"
proof -
  from assms obtain pop g1 s where
    cp: "create_population ga (nat (population_size ga)) g = Inr (pop, g1)"
    and lp: "evolve_loop ga wfs rfs (nat (max_generations ga))
                 \<lparr>population = pop, best_chromosome = None, best_fitness = 0,
                  generations_without_improvement = 0, best_fitness_history = [],
                  avg_fitness_history = [], rng_state = g1\<rparr> = Inr s"
    and res: "res = \<lparr>mapping = best_chromosome s, fitness = best_fitness s,
                   generations = length (best_fitness_history s),
                   history_best_fitness = best_fitness_history s,
                   history_avg_fitness = avg_fitness_history s\<rparr>"
    by (auto simp: evolve_def split: sum.splits prod.splits)
  from evolve_loop_post [OF ga_inv_initial [OF cp] lp] have p: "ga_post ga wfs rfs s" .
  from p show "sorted (history_best_fitness res)" by (simp add: res ga_post_def)
  show "generations res = length (history_best_fitness res)" by (simp add: res)
  from p show "mapping res = Some m \<Longrightarrow> valid_chromosome (n_written ga) (n_reference ga) m
            \<and> evaluate_chromosome ga m wfs rfs = Inr (fitness res)"
    by (simp add: res ga_post_def)
qed

section \<open>When the optimizer returns\<close>

lemma norm2_nonneg: "0 \<le> norm2 v"
  by (simp add: norm2_def)

lemma angle_distance_nonneg:
  assumes "\<bar>a\<bar> \<le> pi" and "\<bar>b\<bar> \<le> pi"
  shows "0 \<le> angle_distance a b"
proof -
  from assms have "\<bar>a - b\<bar> \<le> 2 * pi" by linarith
  then show ?thesis by (simp add: angle_distance_def Let_def)
qed

lemma pair_distance_nonneg:
  assumes "0 \<le> alpha ff" "0 \<le> beta ff" "0 \<le> gamma ff" "0 \<le> epsilon ff"
    and "\<bar>angle w\<bar> \<le> pi" "\<bar>angle r\<bar> \<le> pi"
  shows "0 \<le> pair_distance ff wtl rtl w r"
  unfolding pair_distance_def Let_def
  using assms angle_distance_nonneg [OF assms(5,6)]
  by (intro add_nonneg_nonneg mult_nonneg_nonneg norm2_nonneg abs_ge_zero)

lemma py_get_ok: "1 \<le> i \<Longrightarrow> i \<le> int (length xs) \<Longrightarrow> py_get xs (i - 1) = Inr (xs ! nat (i - 1))"
  by (simp add: py_get_def)

lemma distance_loop_ok:
  assumes w: "0 \<le> alpha ff" "0 \<le> beta ff" "0 \<le> gamma ff" "0 \<le> epsilon ff"
    and ang: "\<forall>f\<in>set wfs \<union> set rfs. \<bar>angle f\<bar> \<le> pi"
  shows "n + length c = length wfs \<Longrightarrow> \<forall>x\<in>set c. 0 \<le> x \<Longrightarrow> 0 \<le> t \<Longrightarrow>
         \<exists>d. distance_loop ff wfs rfs wtl rtl n c t = Inr d \<and> 0 \<le> d"
proof (induction c arbitrary: n t)
  case Nil
  then show ?case by simp
next
  case (Cons r rest)
  from Cons.prems(1) have n: "n < length wfs" and n': "Suc n + length rest = length wfs"
    by simp_all
  from Cons.prems(2) have r0: "0 \<le> r" and rest: "\<forall>x\<in>set rest. 0 \<le> x" by simp_all
  show ?case
  proof (cases "r = 0 \<or> r > int (length rfs)")
    case True
    from Cons.IH [OF n' rest, of "t + 1000"] Cons.prems(3) n True show ?thesis by auto
  next
    case False
    with r0 have r: "1 \<le> r" "r \<le> int (length rfs)" by linarith+
    let ?rf = "rfs ! nat (r - 1)"
    from r have "nat (r - 1) < length rfs" by linarith
    then have "?rf \<in> set rfs" by (rule nth_mem)
    with ang n have "0 \<le> pair_distance ff wtl rtl (wfs ! n) ?rf"
      by (intro pair_distance_nonneg w) auto
    with Cons.prems(3) have "0 \<le> t + pair_distance ff wtl rtl (wfs ! n) ?rf" by simp
    from Cons.IH [OF n' rest this] n False py_get_ok [OF r] show ?thesis by simp
  qed
qed

lemma evaluate_chromosome_ok:
  assumes "ga_ok ga wfs rfs" and "valid_chromosome (n_written ga) (n_reference ga) c"
  shows "\<exists>f. evaluate_chromosome ga c wfs rfs = Inr f \<and> 0 < f \<and> f \<le> 1"
proof -
  from assms(1) have w: "0 \<le> alpha (fitness_func ga)" "0 \<le> beta (fitness_func ga)"
      "0 \<le> gamma (fitness_func ga)" "0 \<le> epsilon (fitness_func ga)"
    and ang: "\<forall>f\<in>set wfs \<union> set rfs. \<bar>angle f\<bar> \<le> pi"
    and l: "n_written ga = length wfs"
    by (auto simp: ga_ok_def list_all_iff)
  from assms(2) l have c: "0 + length c = length wfs" "\<forall>x\<in>set c. 0 \<le> x"
    by (auto dest: valid_chromosomeD)
  from distance_loop_ok [OF w ang c, where t = 0 and wtl = "bbox_tl wfs" and rtl = "bbox_tl rfs"]
  obtain d where
    d: "compute_distance (fitness_func ga) wfs rfs c = Inr d" "0 \<le> d"
    by (auto simp: compute_distance_def)
  then show ?thesis
    by (simp add: evaluate_chromosome_def compute_fitness_def divide_le_eq)
qed

lemma generation_ok:
  assumes ok: "ga_ok ga wfs rfs" and inv: "ga_inv ga wfs rfs s"
    and P: "1 \<le> population_size ga"
    and T: "population_size ga = 1
            \<or> (1 \<le> tournament_size ga \<and> tournament_size ga \<le> population_size ga)"
    and none: "best_chromosome s = None \<longrightarrow> best_fitness s \<le> 0"
  shows "\<exists>r s'. generation ga wfs rfs s = Inr r \<and> (r = Break s' \<or> r = Continue s')
           \<and> best_chromosome s' \<noteq> None \<and> best_fitness_history s' \<noteq> []"
proof -
  let ?W = "n_written ga" and ?R = "n_reference ga" and ?P = "population_size ga"
  from inv have len: "length (population s) = nat ?P"
    and val: "\<forall>c\<in>set (population s). valid_chromosome ?W ?R c"
    by (auto simp: ga_inv_def list_all_iff)
  from val evaluate_chromosome_ok [OF ok]
  have "\<forall>c\<in>set (population s). \<exists>f. evaluate_chromosome ga c wfs rfs = Inr f" by blast
  from evaluate_all_ok [OF this] obtain fits where
    ev: "evaluate_all ga (population s) wfs rfs = Inr fits" by blast
  from evaluate_all_Inr [OF ev] have fl: "length fits = length (population s)"
    and fe: "\<And>i. i < length (population s) \<Longrightarrow>
               evaluate_chromosome ga (population s ! i) wfs rfs = Inr (fits ! i)"
    by simp_all
  from len P fl have ne: "fits \<noteq> []" by auto
  then obtain f fs where ffs: "fits = f # fs" by (cases fits) auto
  define gb where "gb = fold max fs f"
  have gbM: "gb = Max (set fits)" by (simp only: gb_def ffs fold_max_Max)
  have pos: "0 < x" if "x \<in> set fits" for x
  proof -
    from that obtain i where i: "i < length fits" "fits ! i = x" by (auto simp: in_set_conv_nth)
    with fl have "population s ! i \<in> set (population s)" by simp
    with val evaluate_chromosome_ok [OF ok, of "population s ! i"] fe [of i] i fl
    show ?thesis by auto
  qed
  have "gb \<in> set fits" unfolding gbM using ne by (intro Max_in) simp_all
  then have gbpos: "0 < gb" by (rule pos)
  define s1 where "s1 = s\<lparr>best_fitness_history := best_fitness_history s @ [gb],
                         avg_fitness_history := avg_fitness_history s @ [np_mean (f # fs)]\<rparr>"
  define s2 where "s2 = (if gb > best_fitness s1
                        then s1\<lparr>best_fitness := gb,
                                best_chromosome := Some (population s ! py_index (f # fs) gb),
                                generations_without_improvement := 0\<rparr>
                        else s1\<lparr>generations_without_improvement :=
                                  generations_without_improvement s1 + 1\<rparr>)"
  have g: "generation ga wfs rfs s =
           (if generations_without_improvement s2 \<ge> convergence_generations ga
            then Inr (Break s2)
            else (case best_chromosome s2 of
                     None \<Rightarrow> Inl AttributeError
                   | Some bc \<Rightarrow>
                       (case breed ga (population s) (f # fs) [bc] (rng_state s2) of
                          Inl e \<Rightarrow> Inl e
                        | Inr (new_population, g') \<Rightarrow>
                            Inr (Continue
                              (s2\<lparr>population :=
                                     py_slice_to new_population (population_size ga),
                                   rng_state := g'\<rparr>)))))"
    unfolding generation_def ev ffs Let_def gb_def s1_def s2_def
    by (simp only: sum.case list.case)
  have some: "best_chromosome s2 \<noteq> None"
  proof (cases "gb > best_fitness s")
    case True
    then show ?thesis by (simp add: s2_def s1_def)
  next
    case False
    with gbpos none have "best_chromosome s \<noteq> None" by force
    with False show ?thesis by (simp add: s2_def s1_def)
  qed
  have h2: "best_fitness_history s2 \<noteq> []" by (simp add: s2_def s1_def)
  show ?thesis
  proof (cases "generations_without_improvement s2 \<ge> convergence_generations ga")
    case True
    with g some h2 show ?thesis by auto
  next
    case False
    from some obtain bc where bc: "best_chromosome s2 = Some bc" by auto
    from T len P have "population_size ga \<le> int (length [bc])
        \<or> (1 \<le> tournament_size ga \<and> tournament_size ga \<le> int (length (population s)))"
      by auto
    from breed_ok [OF this] obtain newp g' where
      "breed ga (population s) (f # fs) [bc] (rng_state s2) = Inr (newp, g')" by blast
    with g False bc h2 show ?thesis by auto
  qed
qed

lemma evolve_loop_ok:
  assumes ok: "ga_ok ga wfs rfs"
    and P: "1 \<le> population_size ga"
    and T: "population_size ga = 1
            \<or> (1 \<le> tournament_size ga \<and> tournament_size ga \<le> population_size ga)"
  shows "ga_inv ga wfs rfs s \<Longrightarrow> best_chromosome s = None \<longrightarrow> best_fitness s \<le> 0 \<Longrightarrow>
         \<exists>s'. evolve_loop ga wfs rfs k s = Inr s'
            \<and> (0 < k \<longrightarrow> best_chromosome s' \<noteq> None \<and> best_fitness_history s' \<noteq> [])
            \<and> (best_chromosome s \<noteq> None \<and> best_fitness_history s \<noteq> []
                 \<longrightarrow> best_chromosome s' \<noteq> None \<and> best_fitness_history s' \<noteq> [])"
proof (induction k arbitrary: s)
  case 0
  then show ?case by simp
next
  case (Suc k)
  from generation_ok [OF ok Suc.prems(1) P T Suc.prems(2)] obtain r s1 where
    g: "generation ga wfs rfs s = Inr r" and r: "r = Break s1 \<or> r = Continue s1"
    and s1: "best_chromosome s1 \<noteq> None" "best_fitness_history s1 \<noteq> []"
    by blast
  from r show ?case
  proof
    assume "r = Break s1"
    with g s1 show ?thesis by simp
  next
    assume c: "r = Continue s1"
    with generation_inv [OF Suc.prems(1) g] have inv1: "ga_inv ga wfs rfs s1" by simp
    from Suc.IH [OF inv1] s1 obtain s' where
      l: "evolve_loop ga wfs rfs k s1 = Inr s'" and b: "best_chromosome s' \<noteq> None"
        "best_fitness_history s' \<noteq> []"
      by auto
    with g c show ?thesis by simp
  qed
qed

lemma evolve_ok:
  assumes ok: "ga_ok ga wfs rfs"
    and P: "1 \<le> population_size ga"
    and T: "population_size ga = 1
            \<or> (1 \<le> tournament_size ga \<and> tournament_size ga \<le> population_size ga)"
  shows "\<exists>res. evolve ga wfs rfs g = Inr res
           \<and> (1 \<le> max_generations ga \<longrightarrow> mapping res \<noteq> None \<and> 1 \<le> generations res)"
proof -
  from create_population_ok obtain pop g1 where
    cp: "create_population ga (nat (population_size ga)) g = Inr (pop, g1)" by blast
  let ?s0 = "\<lparr>population = pop, best_chromosome = None, best_fitness = 0,
              generations_without_improvement = 0, best_fitness_history = [],
              avg_fitness_history = [], rng_state = g1\<rparr>"
  have "best_chromosome ?s0 = None \<longrightarrow> best_fitness ?s0 \<le> 0" by simp
  from evolve_loop_ok [OF ok P T ga_inv_initial [OF cp] this, of "nat (max_generations ga)"]
  obtain s' where l: "evolve_loop ga wfs rfs (nat (max_generations ga)) ?s0 = Inr s'"
    and b: "0 < nat (max_generations ga) \<longrightarrow>
              best_chromosome s' \<noteq> None \<and> best_fitness_history s' \<noteq> []"
    by (elim exE conjE) (rule that)
  from b have "1 \<le> max_generations ga \<longrightarrow>
       best_chromosome s' \<noteq> None \<and> 1 \<le> length (best_fitness_history s')"
    by (cases "best_fitness_history s'") auto
  then show ?thesis by (simp add: evolve_def cp l)
qed

section \<open>The steps of match\<close>

lemma arctan2_bound: "\<bar>arctan2 y x\<bar> \<le> pi"
proof -
  have b: "- (pi / 2) < arctan (y / x)" "arctan (y / x) < pi / 2"
    by (rule arctan_lbound, rule arctan_ubound)
  consider "x > 0" | "x < 0" "y \<ge> 0" | "x < 0" "y < 0" | "x = 0" by linarith
  then show ?thesis
  proof cases
    case 1
    then have "arctan2 y x = arctan (y / x)" by (simp add: arctan2_def)
    then show ?thesis unfolding abs_le_iff using b pi_gt_zero by linarith
  next
    case 2
    then have "y / x \<le> 0" by (simp add: divide_nonneg_neg)
    then have le: "arctan (y / x) \<le> 0" by (simp add: arctan_le_zero_iff)
    from 2 have "arctan2 y x = arctan (y / x) + pi" by (simp add: arctan2_def)
    then show ?thesis unfolding abs_le_iff using b le pi_gt_zero by linarith
  next
    case 3
    then have "0 < y / x" by (simp add: divide_neg_neg)
    then have ge: "0 < arctan (y / x)" by (simp add: zero_less_arctan_iff)
    from 3 have "arctan2 y x = arctan (y / x) - pi" by (simp add: arctan2_def)
    then show ?thesis unfolding abs_le_iff using b ge pi_gt_zero by linarith
  next
    case 4
    with pi_gt_zero show ?thesis by (simp add: arctan2_def)
  qed
qed

lemma extract_features_Inr:
  assumes "extract_features s = Inr f"
  shows "stroke_ok s" and "\<bar>angle f\<bar> \<le> pi"
proof -
  from assms show ok: "stroke_ok s"
    by (auto simp: extract_features_def stroke_ok_def Let_def split: if_splits)
  with assms show "\<bar>angle f\<bar> \<le> pi"
    using arctan2_bound pi_gt_zero
    by (auto simp: extract_features_def stroke_ok_def Let_def split: if_splits)
qed

lemma extract_features_ok: "stroke_ok s \<Longrightarrow> \<exists>f. extract_features s = Inr f"
  by (simp add: extract_features_def stroke_ok_def Let_def)

lemma extract_all_Inr:
  "extract_all ss = Inr fs \<Longrightarrow>
     length fs = length ss \<and> list_all stroke_ok ss \<and> list_all (\<lambda>f. \<bar>angle f\<bar> \<le> pi) fs"
proof (induction ss arbitrary: fs)
  case Nil
  then show ?case by simp
next
  case (Cons s ss)
  then obtain f fs' where e: "extract_features s = Inr f" and es: "extract_all ss = Inr fs'"
    and fs: "fs = f # fs'"
    by (auto split: sum.splits)
  from Cons.IH [OF es] extract_features_Inr [OF e] show ?case by (simp add: fs)
qed

lemma extract_all_ok: "list_all stroke_ok ss \<Longrightarrow> \<exists>fs. extract_all ss = Inr fs"
proof (induction ss)
  case Nil
  then show ?case by simp
next
  case (Cons s ss)
  then obtain fs where "extract_all ss = Inr fs" by auto
  moreover from Cons.prems extract_features_ok obtain f where "extract_features s = Inr f"
    by auto
  ultimately show ?case by simp
qed

lemma normalize_stroke_ok:
  "2 \<le> length s \<Longrightarrow> stroke_ok (normalize_stroke a b c s) \<longleftrightarrow> stroke_ok s"
  by (simp add: stroke_ok_def normalize_stroke_rows normalize_stroke_rows [unfolded One_nat_def])

lemma normalize_Inr:
  assumes "normalize t ss = Inr (out, meta)"
  shows "length out = length ss" and "list_all stroke_ok out \<longleftrightarrow> list_all stroke_ok ss"
proof -
  show "length out = length ss"
    using assms by (auto simp: normalize_def Let_def split: if_splits sum.splits)
  show "list_all stroke_ok out \<longleftrightarrow> list_all stroke_ok ss"
  proof (cases "ss = []")
    case True
    with assms show ?thesis by (simp add: normalize_def)
  next
    case False
    with assms obtain ax ay where c: "collect_xy ss [] [] = Inr (ax, ay)"
      by (auto simp: normalize_def split: sum.splits)
    from collect_xy_Inr [OF c] have rows: "\<forall>s\<in>set ss. 2 \<le> length s" by simp
    from assms False c obtain a b sc where "out = map (normalize_stroke a b sc) ss"
      by (auto simp: normalize_def Let_def split: sum.splits)
    with rows show ?thesis by (auto simp: list_all_iff normalize_stroke_ok)
  qed
qed

lemma normalize_ok:
  assumes "list_all stroke_ok ss"
  shows "\<exists>out meta. normalize t ss = Inr (out, meta)"
proof (cases ss)
  case Nil
  then show ?thesis by (simp add: normalize_def)
next
  case (Cons s rest)
  from assms have rows: "\<forall>s\<in>set ss. 2 \<le> length s" by (auto simp: list_all_iff stroke_ok_def)
  let ?X = "concat (map (\<lambda>s. s ! 0) ss)" and ?Y = "concat (map (\<lambda>s. s ! 1) ss)"
  from assms Cons have "?X \<noteq> []" "?Y \<noteq> []" by (auto simp: stroke_ok_def)
  with np_min_Min [of ?X] np_max_Max [of ?X] np_min_Min [of ?Y] np_max_Max [of ?Y]
    collect_xy_ok [OF rows, of "[]" "[]"] Cons
  show ?thesis by (simp add: normalize_def Let_def)
qed

lemma orientation_loop_ok:
  "n + length m = length wfs \<Longrightarrow> \<forall>x\<in>set m. 0 \<le> x \<Longrightarrow>
     \<exists>errs. orientation_loop th wfs rfs n m = Inr errs"
proof (induction m arbitrary: n)
  case Nil
  then show ?case by simp
next
  case (Cons r rest)
  from Cons.prems have n: "n < length wfs" and n': "Suc n + length rest = length wfs"
    and r0: "0 \<le> r" and rest: "\<forall>x\<in>set rest. 0 \<le> x" by simp_all
  from Cons.IH [OF n' rest] obtain errs where
    l: "orientation_loop th wfs rfs (Suc n) rest = Inr errs" by blast
  show ?case
  proof (cases "r = 0 \<or> r > int (length rfs)")
    case True
    with l show ?thesis by auto
  next
    case False
    with r0 have "1 \<le> r" "r \<le> int (length rfs)" by linarith+
    from py_get_ok [OF this] False n l show ?thesis by (simp add: Let_def)
  qed
qed

lemma detect_errors_ok:
  assumes "valid_chromosome (length wfs) R m"
  shows "\<exists>errs. detect_errors th m wfs rfs = Inr errs"
proof -
  from assms have "0 + length m = length wfs" "\<forall>x\<in>set m. 0 \<le> x"
    by (auto dest: valid_chromosomeD)
  from orientation_loop_ok [OF this, of th rfs] show ?thesis
    by (auto simp: detect_errors_def check_orientation_def)
qed

text \<open>The steps of \<^verbatim>\<open>match\<close> when it returns.\<close>

lemma match_Inr:
  assumes "match sm written reference g = Inr res"
  obtains wfs rfs ga_res m where
    "length wfs = length written" "length rfs = length reference"
    "list_all stroke_ok (written @ reference)"
    "list_all (\<lambda>f. \<bar>angle f\<bar> \<le> pi) (wfs @ rfs)"
    "written = reference \<longrightarrow> wfs = rfs"
    "evolve (GeneticAlgorithm_init (length written) (length reference)
                   (sm_fitness_func sm) (sm_population_size sm) (sm_max_generations sm)
                   (8 / 10) (1 / 10) 3 10) wfs rfs g = Inr ga_res"
    "mapping ga_res = Some m" "mapping res = Some m" "fitness res = fitness ga_res"
    "generations res = generations ga_res"
    "history_best_fitness res = history_best_fitness ga_res"
    "detect_errors (sm_angle_threshold sm) m wfs rfs = Inr (errors res)"
proof -
  from assms obtain wn rn wm rm where
    pre: "(if sm_normalize sm
            then
              (case normalize (sm_target_size sm) written of
                 Inl e \<Rightarrow> Inl e
               | Inr (written_norm, written_meta) \<Rightarrow>
                   (case normalize (sm_target_size sm) reference of
                      Inl e \<Rightarrow> Inl e
                    | Inr (reference_norm, reference_meta) \<Rightarrow>
                        Inr (written_norm, reference_norm, written_meta, reference_meta)))
            else Inr (written, reference, None, None)) = Inr (wn, rn, wm, rm)"
    by (auto simp: match_def split: sum.splits)
  from assms pre obtain wfs rfs where ew: "extract_all wn = Inr wfs" and er: "extract_all rn = Inr rfs"
    by (auto simp: match_def split: sum.splits)
  let ?ga = "GeneticAlgorithm_init (length written) (length reference)
                   (sm_fitness_func sm) (sm_population_size sm) (sm_max_generations sm)
                   (8 / 10) (1 / 10) 3 10"
  from assms pre ew er obtain ga_res m errs where
    ev: "evolve ?ga wfs rfs g = Inr ga_res" and m: "mapping ga_res = Some m"
    and de: "detect_errors (sm_angle_threshold sm) m wfs rfs = Inr errs"
    and res: "res = \<lparr>mapping = mapping ga_res, fitness = fitness ga_res,
                            generations = generations ga_res,
                            history_best_fitness = history_best_fitness ga_res,
                            history_avg_fitness = history_avg_fitness ga_res,
                            errors = errs, written_features = wfs,
                            reference_features = rfs,
                            normalization_metadata = (wm, rm)\<rparr>"
    by (auto simp: match_def Let_def split: sum.splits option.splits)
  have shape: "length wn = length written \<and> length rn = length reference
        \<and> (list_all stroke_ok wn \<longleftrightarrow> list_all stroke_ok written)
        \<and> (list_all stroke_ok rn \<longleftrightarrow> list_all stroke_ok reference)
        \<and> (written = reference \<longrightarrow> wn = rn)"
  proof (cases "sm_normalize sm")
    case False
    with pre show ?thesis by simp
  next
    case True
    with pre obtain wm' rm' where "normalize (sm_target_size sm) written = Inr (wn, wm')"
      "normalize (sm_target_size sm) reference = Inr (rn, rm')"
      by (auto split: sum.splits)
    with normalize_Inr [OF this(1)] normalize_Inr [OF this(2)] show ?thesis by auto
  qed
  from extract_all_Inr [OF ew] extract_all_Inr [OF er] shape
  have a: "length wfs = length written" "length rfs = length reference"
    "list_all stroke_ok (written @ reference)"
    "list_all (\<lambda>f. \<bar>angle f\<bar> \<le> pi) (wfs @ rfs)"
    by simp_all
  from shape ew er have same: "written = reference \<longrightarrow> wfs = rfs" by auto
  show thesis
    by (rule that [OF a same ev m]) (simp_all add: res m de)
qed

section \<open>match with the default configuration\<close>

lemma match_default_ok:
  assumes W: "written \<noteq> []" and ok: "list_all stroke_ok (written @ reference)"
  shows "\<exists>res. match default_matcher written reference g = Inr res"
proof -
  let ?sm = default_matcher
  have sm: "sm_normalize ?sm" "sm_target_size ?sm = 100" "sm_population_size ?sm = None"
    "sm_max_generations ?sm = 100" "sm_angle_threshold ?sm = pi / 4"
    "sm_fitness_func ?sm = \<lparr>alpha = 1, beta = 1, gamma = 1, epsilon = 1\<rparr>"
    by (simp_all add: default_matcher_def StrokeMatcher_init_def)
  from ok have okw: "list_all stroke_ok written" and okr: "list_all stroke_ok reference"
    by simp_all
  from normalize_ok [OF okw] obtain wn wm where nw: "normalize 100 written = Inr (wn, wm)"
    by blast
  from normalize_ok [OF okr] obtain rn rm where nr: "normalize 100 reference = Inr (rn, rm)"
    by blast
  from normalize_Inr [OF nw] okw have wn: "length wn = length written" "list_all stroke_ok wn"
    by simp_all
  from normalize_Inr [OF nr] okr have rn: "length rn = length reference" "list_all stroke_ok rn"
    by simp_all
  from extract_all_ok [OF wn(2)] obtain wfs where ew: "extract_all wn = Inr wfs" by blast
  from extract_all_ok [OF rn(2)] obtain rfs where er: "extract_all rn = Inr rfs" by blast
  from extract_all_Inr [OF ew] extract_all_Inr [OF er] wn rn
  have f: "length wfs = length written" "length rfs = length reference"
    "list_all (\<lambda>f. \<bar>angle f\<bar> \<le> pi) (wfs @ rfs)" by simp_all
  define ga where "ga = GeneticAlgorithm_init (length written) (length reference)
               \<lparr>alpha = 1, beta = 1, gamma = 1, epsilon = 1\<rparr> None 100 (8 / 10) (1 / 10) 3 10"
  have gaf: "n_written ga = length written" "n_reference ga = length reference"
    "population_size ga = 8 * int (length written)" "tournament_size ga = 3"
    "max_generations ga = 100"
    "fitness_func ga = \<lparr>alpha = 1, beta = 1, gamma = 1, epsilon = 1\<rparr>"
    by (simp_all add: ga_def GeneticAlgorithm_init_def)
  have gok: "ga_ok ga wfs rfs" using f by (simp add: ga_ok_def gaf)
  from W have P: "1 \<le> population_size ga" by (cases written) (simp_all add: gaf)
  from W have T: "population_size ga = 1
     \<or> (1 \<le> tournament_size ga \<and> tournament_size ga \<le> population_size ga)"
    by (cases written) (simp_all add: gaf)
  from evolve_ok [OF gok P T, of g] obtain ga_res m where
    ev: "evolve ga wfs rfs g = Inr ga_res" and m: "mapping ga_res = Some m"
    by (auto simp: gaf)
  from evolve_post(3) [OF ev m] have "valid_chromosome (length wfs) (length reference) m"
    by (simp add: gaf f)
  from detect_errors_ok [OF this] obtain errs where
    de: "detect_errors (pi / 4) m wfs rfs = Inr errs" by blast
  show ?thesis
    unfolding match_def Let_def sm if_True nw nr sum.case prod.case ew er
      ga_def [symmetric] ev m option.case de
    by (simp add: sm ew er ev m de)
qed

section \<open>Elitism: the best-fitness history\<close>

text \<open>
  Claim C3. In every run of the optimizer that returns, the recorded history of the
  generations' best fitness is ascending: each entry is at least the one before it.
  \<^verbatim>\<open>match\<close> reports that history unchanged.
\<close>

theorem best_fitness_history_ascending:
  "(evolve ga wfs rfs g = Inr res \<longrightarrow>
      sorted (history_best_fitness res)
      \<and> length (history_best_fitness res) = generations res
      \<and> (\<forall>i. 1 \<le> i \<and> i < generations res \<longrightarrow>
             history_best_fitness res ! (i - 1) \<le> history_best_fitness res ! i))
   \<and> (match sm written reference g = Inr mres \<longrightarrow>
      sorted (history_best_fitness mres)
      \<and> (\<forall>i. 1 \<le> i \<and> i < generations mres \<longrightarrow>
             history_best_fitness mres ! (i - 1) \<le> history_best_fitness mres ! i))"
proof -
  have step: "\<forall>i. 1 \<le> i \<and> i < length h \<longrightarrow> h ! (i - 1) \<le> h ! i"
    if "sorted h" for h :: "real list"
    using that by (auto intro: sorted_nth_mono)
  have a: "sorted (history_best_fitness r) \<and> length (history_best_fitness r) = generations r
      \<and> (\<forall>i. 1 \<le> i \<and> i < generations r \<longrightarrow>
             history_best_fitness r ! (i - 1) \<le> history_best_fitness r ! i)"
    if "evolve ga' wfs' rfs' g = Inr r" for ga' wfs' rfs' r
    using evolve_post(1,2) [OF that] step [of "history_best_fitness r"] by simp
  have b: "sorted (history_best_fitness mres)
      \<and> (\<forall>i. 1 \<le> i \<and> i < generations mres \<longrightarrow>
             history_best_fitness mres ! (i - 1) \<le> history_best_fitness mres ! i)"
    if m: "match sm written reference g = Inr mres"
  proof -
    from m obtain wfs' rfs' ga_res where
      "evolve (GeneticAlgorithm_init (length written) (length reference)
                   (sm_fitness_func sm) (sm_population_size sm) (sm_max_generations sm)
                   (8 / 10) (1 / 10) 3 10) wfs' rfs' g = Inr ga_res"
      "generations mres = generations ga_res"
      "history_best_fitness mres = history_best_fitness ga_res"
      by (rule match_Inr)
    with a [OF this(1)] show ?thesis by simp
  qed
  from a b show ?thesis by blast
qed

theorem best_fitness_history_ascending_witness:
  "(\<exists>res. evolve (GeneticAlgorithm_init 1 1 \<lparr>alpha = 1, beta = 1, gamma = 1, epsilon = 1\<rparr>
                 None 100 (8 / 10) (1 / 10) 3 10)
            [\<lparr>center = (50, 50), length_feat = 100, angle = 0, start_point = (50, 0),
               end_point = (50, 100), points = [[50, 50], [0, 100]]\<rparr>]
            [\<lparr>center = (50, 50), length_feat = 100, angle = 0, start_point = (50, 0),
               end_point = (50, 100), points = [[50, 50], [0, 100]]\<rparr>] (\<lambda>n. 0) = Inr res
       \<and> 1 \<le> generations res \<and> sorted (history_best_fitness res))
   \<and> (\<exists>res. match default_matcher [[[0, 100], [50, 50]]] [[[0, 100], [50, 50]]] (\<lambda>n. 0)
            = Inr res
       \<and> sorted (history_best_fitness res))"
proof -
  define f0 where "f0 = \<lparr>center = (50, 50), length_feat = 100, angle = 0, start_point = (50, 0),
         end_point = (50, 100), points = [[50, 50], [0, 100::real]]\<rparr>"
  define ga where "ga = GeneticAlgorithm_init 1 1 \<lparr>alpha = 1, beta = 1, gamma = 1, epsilon = 1\<rparr>
                 None 100 (8 / 10) (1 / 10) 3 10"
  have h: "ga_ok ga [f0] [f0]" "1 \<le> population_size ga"
    "population_size ga = 1
      \<or> (1 \<le> tournament_size ga \<and> tournament_size ga \<le> population_size ga)"
    "1 \<le> max_generations ga"
    by (simp_all add: ga_def GeneticAlgorithm_init_def ga_ok_def f0_def)
  from evolve_ok [OF h(1,2,3), of "\<lambda>n. 0"] h(4) obtain r where
    e: "evolve ga [f0] [f0] (\<lambda>n. 0) = Inr r" and g: "1 \<le> generations r" by auto
  have "sorted (history_best_fitness r)"
    using mp [OF best_fitness_history_ascending
        [where ga = ga and wfs = "[f0]" and rfs = "[f0]" and g = "\<lambda>n. 0" and res = r,
         THEN conjunct1] e]
    by (rule conjunct1)
  with e g have A: "\<exists>res. evolve ga [f0] [f0] (\<lambda>n. 0) = Inr res
       \<and> 1 \<le> generations res \<and> sorted (history_best_fitness res)"
    by blast
  have "list_all stroke_ok ([[[0, 100], [50, 50]]] @ [[[0, 100], [50, 50]]])"
    by (simp add: stroke_ok_def)
  from match_default_ok [OF _ this, of "\<lambda>n. 0"] obtain res where
    m: "match default_matcher [[[0, 100], [50, 50]]] [[[0, 100], [50, 50]]] (\<lambda>n. 0) = Inr res"
    by auto
  have "sorted (history_best_fitness res)"
    using mp [OF best_fitness_history_ascending
        [where sm = default_matcher and written = "[[[0, 100], [50, 50]]]"
           and reference = "[[[0, 100], [50, 50]]]" and g = "\<lambda>n. 0" and mres = res,
         THEN conjunct2] m]
    by (rule conjunct1)
  with m have B: "\<exists>res. match default_matcher [[[0, 100], [50, 50]]] [[[0, 100], [50, 50]]]
       (\<lambda>n. 0) = Inr res \<and> sorted (history_best_fitness res)"
    by blast
  from A B show ?thesis unfolding ga_def f0_def by (intro conjI)
qed

section \<open>The shape of the assignment\<close>

text \<open>
  Claim C4. Whenever \<^verbatim>\<open>match\<close> returns, its assignment has length \<open>W\<close> and every
  entry lies in \<open>[0..R]\<close>. Chromosome creation gives that shape, tournament selection
  returns a member of the population, and crossover and mutation keep the shape.
\<close>

theorem assignment_shape:
  "(match sm written reference g = Inr res \<longrightarrow>
      (\<exists>m. mapping res = Some m \<and> valid_chromosome (length written) (length reference) m))
   \<and> (create_chromosome ga g = Inr (c, g1) \<longrightarrow>
        valid_chromosome (n_written ga) (n_reference ga) c)
   \<and> (tournament_selection ga pop fitnesses g = Inr (p, g2)
        \<and> list_all (valid_chromosome W R) pop \<longrightarrow> valid_chromosome W R p)
   \<and> (crossover ga p1 p2 g = Inr ((c1, c2), g3)
        \<and> valid_chromosome W R p1 \<and> valid_chromosome W R p2 \<longrightarrow>
        valid_chromosome W R c1 \<and> valid_chromosome W R c2)
   \<and> (mutate ga d g = Inr (d', g4) \<and> valid_chromosome W (n_reference ga) d \<longrightarrow>
        valid_chromosome W (n_reference ga) d')"
proof -
  have A: "\<exists>m. mapping res = Some m \<and> valid_chromosome (length written) (length reference) m"
    if m: "match sm written reference g = Inr res"
  proof -
    from m obtain wfs rfs ga_res m where
      ev: "evolve (GeneticAlgorithm_init (length written) (length reference)
                   (sm_fitness_func sm) (sm_population_size sm) (sm_max_generations sm)
                   (8 / 10) (1 / 10) 3 10) wfs rfs g = Inr ga_res"
      and mm: "mapping ga_res = Some m" "mapping res = Some m"
      by (rule match_Inr)
    from evolve_post(3) [OF ev mm(1)]
    have "valid_chromosome (length written) (length reference) m"
      by (simp add: GeneticAlgorithm_init_def)
    with mm(2) show ?thesis by simp
  qed
  have B: "valid_chromosome (n_written ga) (n_reference ga) c"
    if "create_chromosome ga g = Inr (c, g1)"
    using that by (rule create_chromosome_valid)
  have C: "valid_chromosome W R p"
    if "tournament_selection ga pop fitnesses g = Inr (p, g2)"
      and "list_all (valid_chromosome W R) pop"
  proof -
    from that(1) have "p \<in> set pop" by (rule tournament_selection_mem)
    with that(2) show ?thesis by (simp add: list_all_iff)
  qed
  have D: "valid_chromosome W R c1 \<and> valid_chromosome W R c2"
    if "crossover ga p1 p2 g = Inr ((c1, c2), g3)"
      and "valid_chromosome W R p1" and "valid_chromosome W R p2"
    using that by (rule crossover_valid)
  have E: "valid_chromosome W (n_reference ga) d'"
    if "mutate ga d g = Inr (d', g4)" and "valid_chromosome W (n_reference ga) d"
    using that(1) refl that(2) by (rule mutate_valid)
  from A have A': "match sm written reference g = Inr res \<longrightarrow>
      (\<exists>m. mapping res = Some m \<and> valid_chromosome (length written) (length reference) m)"
    by (rule impI)
  from B have B': "create_chromosome ga g = Inr (c, g1) \<longrightarrow>
        valid_chromosome (n_written ga) (n_reference ga) c"
    by (rule impI)
  have C': "tournament_selection ga pop fitnesses g = Inr (p, g2)
        \<and> list_all (valid_chromosome W R) pop \<longrightarrow> valid_chromosome W R p"
    by (rule impI, erule conjE, erule (1) C)
  have D': "crossover ga p1 p2 g = Inr ((c1, c2), g3)
        \<and> valid_chromosome W R p1 \<and> valid_chromosome W R p2 \<longrightarrow>
        valid_chromosome W R c1 \<and> valid_chromosome W R c2"
    by (rule impI, elim conjE, erule (2) D)
  have E': "mutate ga d g = Inr (d', g4) \<and> valid_chromosome W (n_reference ga) d \<longrightarrow>
        valid_chromosome W (n_reference ga) d'"
    by (rule impI, erule conjE, erule (1) E)
  show ?thesis
    by (rule conjI [OF A' conjI [OF B' conjI [OF C' conjI [OF D' E']]]])
qed

theorem assignment_shape_witness:
  "(\<exists>res m. match default_matcher [[[0, 100], [50, 50]]] [[[0, 100], [50, 50]]] (\<lambda>n. 0) = Inr res
       \<and> mapping res = Some m \<and> valid_chromosome 1 1 m)
   \<and> create_chromosome
         (GeneticAlgorithm_init 2 2 \<lparr>alpha = 1, beta = 1, gamma = 1, epsilon = 1\<rparr>
            None 100 (8 / 10) (1 / 10) 3 10) (\<lambda>n. 0) = Inr ([2, 1], \<lambda>n. 0)
   \<and> valid_chromosome 2 2 [2, 1]
   \<and> tournament_selection
         (GeneticAlgorithm_init 2 2 \<lparr>alpha = 1, beta = 1, gamma = 1, epsilon = 1\<rparr>
            None 100 (8 / 10) (1 / 10) 3 10) [[1, 2], [2, 1], [2, 2]] [1, 1 / 2, 1 / 3] (\<lambda>n. 0)
       = Inr ([1, 2], \<lambda>n. 0)
   \<and> valid_chromosome 2 2 [1, 2]
   \<and> crossover
         (GeneticAlgorithm_init 2 2 \<lparr>alpha = 1, beta = 1, gamma = 1, epsilon = 1\<rparr>
            None 100 (8 / 10) (1 / 10) 3 10) [1, 2] [2, 1] (\<lambda>n. 0)
       = Inr (([1, 1], [2, 2]), \<lambda>n. 0)
   \<and> valid_chromosome 2 2 [1, 1] \<and> valid_chromosome 2 2 [2, 2]
   \<and> mutate
         (GeneticAlgorithm_init 2 2 \<lparr>alpha = 1, beta = 1, gamma = 1, epsilon = 1\<rparr>
            None 100 (8 / 10) (1 / 10) 3 10) [1, 1] (\<lambda>n. 0)
       = Inr ([0, 0], \<lambda>n. 0)
   \<and> valid_chromosome 2 2 [0, 0]"
proof -
  let ?s = "[[[0, 100], [50, 50::real]]]"
  let ?ga = "GeneticAlgorithm_init 2 2 \<lparr>alpha = 1, beta = 1, gamma = 1, epsilon = 1\<rparr>
            None 100 (8 / 10) (1 / 10) 3 10"
  have "list_all stroke_ok (?s @ ?s)" by (simp add: stroke_ok_def)
  from match_default_ok [OF _ this, of "\<lambda>n. 0"] obtain res where
    m: "match default_matcher ?s ?s (\<lambda>n. 0) = Inr res"
    by auto
  have cc: "create_chromosome ?ga (\<lambda>n. 0) = Inr ([2, 1], \<lambda>n. 0)"
    by (simp add: create_chromosome_def GeneticAlgorithm_init_def shuffle_def rk_interval_def
          next_raw_def upt_conv_Cons)
  have ts: "tournament_selection ?ga [[1, 2], [2, 1], [2, 2]] [1, 1 / 2, 1 / 3] (\<lambda>n. 0)
       = Inr ([1, 2], \<lambda>n. 0)"
    by (simp add: tournament_selection_def GeneticAlgorithm_init_def choice_def shuffle_def
          rk_interval_def next_raw_def upt_conv_Cons py_max_key_def numeral_2_eq_2)
  have cr: "crossover ?ga [1, 2] [2, 1] (\<lambda>n. 0) = Inr (([1, 1], [2, 2]), \<lambda>n. 0)"
    by (simp add: crossover_def GeneticAlgorithm_init_def random_sample_def randint_def
          next_raw_def)
  have mu: "mutate ?ga [1, 1] (\<lambda>n. 0) = Inr ([0, 0], \<lambda>n. 0)"
    by (simp add: GeneticAlgorithm_init_def random_sample_def randint_def next_raw_def)
  have v0: "list_all (valid_chromosome 2 2) [[1, 2], [2, 1], [2, 2]]"
    "valid_chromosome 2 2 [1, 2]" "valid_chromosome 2 2 [2, 1]"
    by (simp_all add: valid_chromosome_def)
  have nr: "n_written ?ga = 2" "n_reference ?ga = 2" by (simp_all add: GeneticAlgorithm_init_def)
  note t = assignment_shape
    [where sm = default_matcher and written = ?s and reference = ?s and g = "\<lambda>n. 0"
       and res = res and ga = ?ga and c = "[2, 1]" and ?g1.0 = "\<lambda>n. 0"
       and pop = "[[1, 2], [2, 1], [2, 2]]" and fitnesses = "[1, 1 / 2, 1 / 3]"
       and p = "[1, 2]" and ?g2.0 = "\<lambda>n. 0" and W = 2 and R = 2
       and ?p1.0 = "[1, 2]" and ?p2.0 = "[2, 1]" and ?c1.0 = "[1, 1]" and ?c2.0 = "[2, 2]"
       and ?g3.0 = "\<lambda>n. 0" and d = "[1, 1]" and d' = "[0, 0]" and ?g4.0 = "\<lambda>n. 0"]
  from t have t1: "match default_matcher ?s ?s (\<lambda>n. 0) = Inr res \<longrightarrow>
      (\<exists>m. mapping res = Some m \<and> valid_chromosome (length ?s) (length ?s) m)"
    by (rule conjunct1)
  from t1 m obtain m' where r1: "mapping res = Some m'" "valid_chromosome 1 1 m'" by auto
  from t have "create_chromosome ?ga (\<lambda>n. 0) = Inr ([2, 1], \<lambda>n. 0) \<longrightarrow>
        valid_chromosome (n_written ?ga) (n_reference ?ga) [2, 1]"
    by (elim conjE)
  with cc have r2: "valid_chromosome 2 2 [2, 1]" by (simp only: nr)
  from t have "tournament_selection ?ga [[1, 2], [2, 1], [2, 2]] [1, 1 / 2, 1 / 3] (\<lambda>n. 0)
          = Inr ([1, 2], \<lambda>n. 0)
        \<and> list_all (valid_chromosome 2 2) [[1, 2], [2, 1], [2, 2]]
        \<longrightarrow> valid_chromosome 2 2 [1, 2]"
    by (elim conjE)
  with ts v0(1) have r3: "valid_chromosome 2 2 [1, 2]" by (simp only:)
  from t have "crossover ?ga [1, 2] [2, 1] (\<lambda>n. 0) = Inr (([1, 1], [2, 2]), \<lambda>n. 0)
        \<and> valid_chromosome 2 2 [1, 2] \<and> valid_chromosome 2 2 [2, 1] \<longrightarrow>
        valid_chromosome 2 2 [1, 1] \<and> valid_chromosome 2 2 [2, 2]"
    by (elim conjE)
  with cr r3 r2 have r4: "valid_chromosome 2 2 [1, 1]" "valid_chromosome 2 2 [2, 2]"
    by (simp_all only:)
  from t have "mutate ?ga [1, 1] (\<lambda>n. 0) = Inr ([0, 0], \<lambda>n. 0)
        \<and> valid_chromosome 2 (n_reference ?ga) [1, 1] \<longrightarrow>
        valid_chromosome 2 (n_reference ?ga) [0, 0]"
    by (elim conjE)
  with mu r4(1) have r5: "valid_chromosome 2 2 [0, 0]" by (simp only: nr)
  from m r1 have e: "\<exists>res m. match default_matcher ?s ?s (\<lambda>n. 0) = Inr res
       \<and> mapping res = Some m \<and> valid_chromosome 1 1 m"
    by blast
  show ?thesis
    by (intro conjI e cc r2 ts r3 cr r4 mu r5)
qed

section \<open>No written stroke\<close>

lemma evolve_empty_population:
  assumes "population_size ga \<le> 0" and "1 \<le> max_generations ga"
  shows "evolve ga wfs rfs g = Inl ValueError"
proof -
  from assms(1) have p: "nat (population_size ga) = 0" by simp
  from assms(2) obtain k where k: "nat (max_generations ga) = Suc k"
    by (cases "nat (max_generations ga)") auto
  show ?thesis
    by (simp add: evolve_def p k generation_def)
qed

text \<open>
  Claim C5 fails on the code. With no written stroke the default population size is
  \<open>8 \<cdot> 0 = 0\<close>, the population is empty, and the first generation takes the maximum
  of an empty list of fitness values: \<^verbatim>\<open>match\<close> raises \<^verbatim>\<open>ValueError\<close> for every
  reference it accepts, where the claim has it return an empty assignment.
\<close>

theorem match_empty_written_raises:
  assumes "list_all stroke_ok reference"
  shows "match default_matcher [] reference g = Inl ValueError"
proof -
  have sm: "sm_normalize default_matcher" "sm_target_size default_matcher = 100"
    "sm_population_size default_matcher = None"
    "sm_max_generations default_matcher = 100"
    by (simp_all add: default_matcher_def StrokeMatcher_init_def)
  from normalize_ok [OF assms] obtain rn rm where nr: "normalize 100 reference = Inr (rn, rm)"
    by blast
  from normalize_Inr [OF nr] assms have "list_all stroke_ok rn" by simp
  from extract_all_ok [OF this] obtain rfs where er: "extract_all rn = Inr rfs" by blast
  define ga where "ga = GeneticAlgorithm_init (length ([] :: stroke list)) (length reference)
                   (sm_fitness_func default_matcher) None 100 (8 / 10) (1 / 10) 3 10"
  have "population_size ga \<le> 0" "1 \<le> max_generations ga"
    by (simp_all add: ga_def GeneticAlgorithm_init_def)
  then have ev: "evolve ga [] rfs g = Inl ValueError" by (rule evolve_empty_population)
  have n0: "normalize 100 [] = Inr ([], None)" by (simp add: normalize_def)
  show ?thesis
    unfolding match_def Let_def sm if_True n0 nr sum.case prod.case extract_all.simps er
      ga_def [symmetric] ev
    by (simp add: sm er ev)
qed

theorem match_empty_written_raises_witness:
  "list_all stroke_ok [[[0, 100], [50, 50]]]
   \<and> match default_matcher [] [[[0, 100], [50, 50]]] (\<lambda>n. 0) = Inl ValueError"
proof -
  have ok: "list_all stroke_ok [[[0, 100], [50, 50]]]" by (simp add: stroke_ok_def)
  from match_empty_written_raises [OF ok] ok show ?thesis by simp
qed

section \<open>Configurations the constructor does not check\<close>







section \<open>Inputs that match rejects\<close>

lemma collect_xy_short:
  "\<not> list_all (\<lambda>s. 2 \<le> length s) ss \<Longrightarrow> collect_xy ss ax ay = Inl ValueError"
  by (induction ss ax ay rule: collect_xy.induct) auto

lemma collect_xy_Inl: "collect_xy ss ax ay = Inl e \<Longrightarrow> e = ValueError"
  by (induction ss ax ay rule: collect_xy.induct) (auto split: if_splits)

lemma normalize_Inl: "normalize t ss = Inl e \<Longrightarrow> e = ValueError"
  by (auto simp: normalize_def np_min_def np_max_def Let_def
        split: if_splits sum.splits list.splits dest: collect_xy_Inl)

lemma normalize_short:
  assumes "\<not> list_all (\<lambda>s. 2 \<le> length s) ss"
  shows "normalize t ss = Inl ValueError"
proof -
  from assms have "ss \<noteq> []" by auto
  with collect_xy_short [OF assms, of "[]" "[]"] show ?thesis by (simp add: normalize_def)
qed

lemma np_min_Nil: "np_min [] = Inl ValueError"
  by (simp add: np_min_def)

lemma normalize_no_points:
  assumes rows: "list_all (\<lambda>s. 2 \<le> length s) ss" and np: "no_points ss"
  shows "normalize t ss = Inl ValueError"
proof -
  from np have ne: "ss \<noteq> []" by (simp add: no_points_def)
  from rows have "\<forall>s\<in>set ss. 2 \<le> length s" by (simp add: list_all_iff)
  from collect_xy_ok [OF this, of "[]" "[]"]
  have c: "collect_xy ss [] [] = Inr (concat (map (\<lambda>s. s ! 0) ss), concat (map (\<lambda>s. s ! 1) ss))"
    by simp
  from np consider "concat (map (\<lambda>s. s ! 0) ss) = []"
    | "concat (map (\<lambda>s. s ! 0) ss) \<noteq> []" "concat (map (\<lambda>s. s ! 1) ss) = []"
    by (auto simp: no_points_def)
  then show ?thesis
  proof cases
    case 1
    then have "np_min (concat (map (\<lambda>s. s ! 0) ss)) = Inl ValueError"
      by (simp only: np_min_Nil)
    with ne c show ?thesis by (simp add: normalize_def)
  next
    case 2
    from 2(2) have "np_min (concat (map (\<lambda>s. s ! 1) ss)) = Inl ValueError"
      by (simp only: np_min_Nil)
    with ne c np_min_Min [OF 2(1)] np_max_Max [OF 2(1)] show ?thesis
      by (simp add: normalize_def)
  qed
qed

lemma normalize_points:
  assumes rows: "list_all (\<lambda>s. 2 \<le> length s) ss" and np: "\<not> no_points ss"
  shows "\<exists>out meta. normalize t ss = Inr (out, meta)"
proof (cases "ss = []")
  case True
  then show ?thesis by (simp add: normalize_def)
next
  case False
  from rows have "\<forall>s\<in>set ss. 2 \<le> length s" by (simp add: list_all_iff)
  from collect_xy_ok [OF this, of "[]" "[]"]
  have c: "collect_xy ss [] [] = Inr (concat (map (\<lambda>s. s ! 0) ss), concat (map (\<lambda>s. s ! 1) ss))"
    by simp
  from np False have X: "concat (map (\<lambda>s. s ! 0) ss) \<noteq> []"
    and Y: "concat (map (\<lambda>s. s ! 1) ss) \<noteq> []" by (simp_all add: no_points_def)
  from False c np_min_Min [OF X] np_max_Max [OF X] np_min_Min [OF Y] np_max_Max [OF Y]
  show ?thesis by (simp add: normalize_def Let_def)
qed

lemma extract_features_Inl: "extract_features s = Inl e \<Longrightarrow> e = IndexError"
  by (auto simp: extract_features_def Let_def split: if_splits)

lemma extract_features_bad: "\<not> stroke_ok s \<Longrightarrow> extract_features s = Inl IndexError"
  by (auto simp: extract_features_def stroke_ok_def Let_def)

lemma extract_all_Inl: "extract_all ss = Inl e \<Longrightarrow> e = IndexError"
  by (induction ss) (auto split: sum.splits dest: extract_features_Inl)

lemma extract_all_bad: "\<not> list_all stroke_ok ss \<Longrightarrow> extract_all ss = Inl IndexError"
proof (induction ss)
  case Nil
  then show ?case by simp
next
  case (Cons s ss)
  show ?case
  proof (cases "stroke_ok s")
    case False
    from extract_features_bad [OF this] show ?thesis by simp
  next
    case True
    with Cons.prems have "\<not> list_all stroke_ok ss" by simp
    moreover from extract_features_ok [OF True] obtain f where "extract_features s = Inr f"
      by blast
    ultimately show ?thesis using Cons.IH by simp
  qed
qed

lemma match_short_rows:
  assumes n: "sm_normalize sm"
    and bad: "\<not> list_all (\<lambda>s. 2 \<le> length s) (written @ reference)"
  shows "match sm written reference g = Inl ValueError"
proof (cases "normalize (sm_target_size sm) written")
  case (Inl e)
  with normalize_Inl [OF Inl] n show ?thesis by (simp add: match_def)
next
  case (Inr p)
  then have "list_all (\<lambda>s. 2 \<le> length s) written"
    using normalize_short [of written "sm_target_size sm"] by auto
  with bad have "\<not> list_all (\<lambda>s. 2 \<le> length s) reference" by simp
  from normalize_short [OF this, of "sm_target_size sm"] Inr n show ?thesis
    by (simp add: match_def split: prod.splits)
qed

lemma match_raw_bad:
  assumes n: "\<not> sm_normalize sm"
    and bad: "\<not> list_all stroke_ok (written @ reference)"
  shows "match sm written reference g = Inl IndexError"
proof (cases "extract_all written")
  case (Inl e)
  with extract_all_Inl [OF Inl] n show ?thesis by (simp add: match_def)
next
  case (Inr wfs)
  then have "list_all stroke_ok written" using extract_all_bad [of written] by auto
  with bad have "\<not> list_all stroke_ok reference" by simp
  from extract_all_bad [OF this] Inr n show ?thesis by (simp add: match_def)
qed

lemma match_no_points:
  assumes n: "sm_normalize sm"
    and rows: "list_all (\<lambda>s. 2 \<le> length s) (written @ reference)"
    and np: "no_points written \<or> no_points reference"
  shows "match sm written reference g = Inl ValueError"
proof (cases "normalize (sm_target_size sm) written")
  case (Inl e)
  with normalize_Inl [OF Inl] n show ?thesis by (simp add: match_def)
next
  case (Inr p)
  from rows have rw: "list_all (\<lambda>s. 2 \<le> length s) written"
    and rr: "list_all (\<lambda>s. 2 \<le> length s) reference" by simp_all
  from Inr normalize_no_points [OF rw, of "sm_target_size sm"] have "\<not> no_points written" by auto
  with np have "no_points reference" by simp
  from normalize_no_points [OF rr this, of "sm_target_size sm"] Inr n show ?thesis
    by (simp add: match_def split: prod.splits)
qed

lemma match_some_stroke_empty:
  assumes n: "sm_normalize sm"
    and rows: "list_all (\<lambda>s. 2 \<le> length s) (written @ reference)"
    and np: "\<not> no_points written" "\<not> no_points reference"
    and bad: "\<not> list_all stroke_ok (written @ reference)"
  shows "match sm written reference g = Inl IndexError"
proof -
  from rows have rw: "list_all (\<lambda>s. 2 \<le> length s) written"
    and rr: "list_all (\<lambda>s. 2 \<le> length s) reference" by simp_all
  from normalize_points [OF rw np(1)] obtain wn wm where
    nw: "normalize (sm_target_size sm) written = Inr (wn, wm)" by blast
  from normalize_points [OF rr np(2)] obtain rn rm where
    nr: "normalize (sm_target_size sm) reference = Inr (rn, rm)" by blast
  from normalize_Inr(2) [OF nw] normalize_Inr(2) [OF nr] bad
  have bad': "\<not> list_all stroke_ok (wn @ rn)" by simp
  show ?thesis
  proof (cases "extract_all wn")
    case (Inl e)
    with extract_all_Inl [OF Inl] n nw nr show ?thesis by (simp add: match_def)
  next
    case (Inr wfs)
    then have "list_all stroke_ok wn" using extract_all_bad [of wn] by auto
    with bad' have "\<not> list_all stroke_ok rn" by simp
    from extract_all_bad [OF this] Inr n nw nr show ?thesis by (simp add: match_def)
  qed
qed

text \<open>
  Claim C6, as the code has it. \<^verbatim>\<open>match\<close> raises, and returns no result, whenever
  some stroke of either list has fewer than two coordinate rows: \<^verbatim>\<open>ValueError\<close>, from
  the normalizer, when normalization is on, and \<^verbatim>\<open>IndexError\<close>, from the extractor,
  when it is off. A polyline with no point at all raises too: \<^verbatim>\<open>IndexError\<close> when
  normalization is off; when it is on, \<^verbatim>\<open>ValueError\<close> if the written or the reference
  list is without any point, and \<^verbatim>\<open>IndexError\<close> otherwise. Nothing else is rejected:
  with the default configuration, at least one written stroke, and every stroke of two
  rows or more, of one point or more and with coordinates in the range of the double
  arithmetic, \<^verbatim>\<open>match\<close> returns a result; a polyline of a single point and an empty
  reference list are accepted.
\<close>

theorem match_invalid_input:
  "(sm_normalize sm \<and> \<not> list_all (\<lambda>s. 2 \<le> length s) (written @ reference) \<longrightarrow>
        match sm written reference g = Inl ValueError)
   \<and> (\<not> sm_normalize sm \<and> \<not> list_all stroke_ok (written @ reference) \<longrightarrow>
        match sm written reference g = Inl IndexError)
   \<and> (sm_normalize sm \<and> list_all (\<lambda>s. 2 \<le> length s) (written @ reference)
        \<and> (no_points written \<or> no_points reference) \<longrightarrow>
        match sm written reference g = Inl ValueError)
   \<and> (sm_normalize sm \<and> list_all (\<lambda>s. 2 \<le> length s) (written @ reference)
        \<and> \<not> no_points written \<and> \<not> no_points reference
        \<and> \<not> list_all stroke_ok (written @ reference) \<longrightarrow>
        match sm written reference g = Inl IndexError)
   \<and> (written \<noteq> [] \<and> list_all stroke_ok (written @ reference)
        \<and> double_range written \<and> double_range reference \<longrightarrow>
        (\<exists>res. match default_matcher written reference g = Inr res))"
proof -
  have A: "sm_normalize sm \<and> \<not> list_all (\<lambda>s. 2 \<le> length s) (written @ reference) \<longrightarrow>
        match sm written reference g = Inl ValueError"
    by (rule impI, erule conjE, erule (1) match_short_rows)
  have B: "\<not> sm_normalize sm \<and> \<not> list_all stroke_ok (written @ reference) \<longrightarrow>
        match sm written reference g = Inl IndexError"
    by (rule impI, erule conjE, erule (1) match_raw_bad)
  have C: "sm_normalize sm \<and> list_all (\<lambda>s. 2 \<le> length s) (written @ reference)
        \<and> (no_points written \<or> no_points reference) \<longrightarrow>
        match sm written reference g = Inl ValueError"
    by (rule impI, elim conjE, erule (2) match_no_points)
  have D: "sm_normalize sm \<and> list_all (\<lambda>s. 2 \<le> length s) (written @ reference)
        \<and> \<not> no_points written \<and> \<not> no_points reference
        \<and> \<not> list_all stroke_ok (written @ reference) \<longrightarrow>
        match sm written reference g = Inl IndexError"
    by (rule impI, elim conjE, erule (4) match_some_stroke_empty)
  have E: "written \<noteq> [] \<and> list_all stroke_ok (written @ reference)
        \<and> double_range written \<and> double_range reference \<longrightarrow>
        (\<exists>res. match default_matcher written reference g = Inr res)"
    by (rule impI, elim conjE, erule (1) match_default_ok)
  show ?thesis by (rule conjI [OF A conjI [OF B conjI [OF C conjI [OF D E]]]])
qed

theorem match_invalid_input_witness:
  "match default_matcher [[[1, 2]]] [[[0, 100], [50, 50]]] (\<lambda>n. 0) = Inl ValueError
   \<and> match (default_matcher\<lparr>sm_normalize := False\<rparr>) [[[1, 2]]] [[[0, 100], [50, 50]]] (\<lambda>n. 0)
       = Inl IndexError
   \<and> match default_matcher [[[], []]] [[[0, 100], [50, 50]]] (\<lambda>n. 0) = Inl ValueError
   \<and> match default_matcher [[[0, 100], [50, 50]], [[], []]] [[[0, 100], [50, 50]]] (\<lambda>n. 0)
       = Inl IndexError
   \<and> (\<exists>res. match default_matcher [[[0, 100], [50, 50]]] [[[0, 100], [50, 50]]] (\<lambda>n. 0)
          = Inr res)"
proof -
  have n: "sm_normalize default_matcher"
    by (simp add: default_matcher_def StrokeMatcher_init_def)
  have h1: "sm_normalize default_matcher
     \<and> \<not> list_all (\<lambda>s. 2 \<le> length s) ([[[1, 2]]] @ [[[0, 100], [50, 50::real]]])"
    by (simp add: n)
  have h2: "\<not> sm_normalize (default_matcher\<lparr>sm_normalize := False\<rparr>)
     \<and> \<not> list_all stroke_ok ([[[1, 2]]] @ [[[0, 100], [50, 50]]])"
    by (simp add: stroke_ok_def)
  have h3: "sm_normalize default_matcher
     \<and> list_all (\<lambda>s. 2 \<le> length s) ([[[], []]] @ [[[0, 100], [50, 50::real]]])
     \<and> (no_points [[[], []]] \<or> no_points [[[0, 100], [50, 50]]])"
    by (simp add: n no_points_def)
  have h4: "sm_normalize default_matcher
     \<and> list_all (\<lambda>s. 2 \<le> length s) ([[[0, 100], [50, 50]], [[], []]] @ [[[0, 100], [50, 50::real]]])
     \<and> \<not> no_points [[[0, 100], [50, 50]], [[], []]] \<and> \<not> no_points [[[0, 100], [50, 50]]]
     \<and> \<not> list_all stroke_ok ([[[0, 100], [50, 50]], [[], []]] @ [[[0, 100], [50, 50]]])"
    by (simp add: n no_points_def stroke_ok_def)
  have h5: "[[[0, 100], [50, 50::real]]] \<noteq> []
     \<and> list_all stroke_ok ([[[0, 100], [50, 50]]] @ [[[0, 100], [50, 50]]])
     \<and> double_range [[[0, 100], [50, 50]]] \<and> double_range [[[0, 100], [50, 50]]]"
    by (simp add: stroke_ok_def double_range_def)
  note r1 = mp [OF match_invalid_input [THEN conjunct1] h1]
  note r2 = mp [OF match_invalid_input [THEN conjunct2, THEN conjunct1] h2]
  note r3 = mp [OF match_invalid_input [THEN conjunct2, THEN conjunct2, THEN conjunct1] h3]
  note r4 = mp [OF match_invalid_input [THEN conjunct2, THEN conjunct2, THEN conjunct2,
                  THEN conjunct1] h4]
  note r5 = mp [OF match_invalid_input [THEN conjunct2, THEN conjunct2, THEN conjunct2,
                  THEN conjunct2] h5]
  show ?thesis by (intro conjI r1 r2 r3 r4 r5)
qed

text \<open>
  The claim as stated fails: with an empty reference list, and with polylines of a
  single point, \<^verbatim>\<open>match\<close> returns a result.
\<close>

theorem match_invalid_input_counterexample:
  "\<not> isl (match default_matcher [[[0, 100], [50, 50]]] [] (\<lambda>n. 0))
   \<and> \<not> isl (match default_matcher [[[5], [5]]] [[[5], [5]]] (\<lambda>n. 0))"
proof -
  have "list_all stroke_ok ([[[0, 100], [50, 50]]] @ [])" by (simp add: stroke_ok_def)
  from match_default_ok [OF _ this, of "\<lambda>n. 0"]
  have r1: "\<not> isl (match default_matcher [[[0, 100], [50, 50]]] [] (\<lambda>n. 0))" by auto
  have "list_all stroke_ok ([[[5], [5]]] @ [[[5], [5]]])" by (simp add: stroke_ok_def)
  from match_default_ok [OF _ this, of "\<lambda>n. 0"]
  have r2: "\<not> isl (match default_matcher [[[5], [5]]] [[[5], [5]]] (\<lambda>n. 0))" by auto
  show ?thesis by (intro conjI r1 r2)
qed

section \<open>The identity assignment has no error\<close>

lemma check_broken_extra_distinct:
  assumes d: "distinct m" and pos: "\<forall>x\<in>set m. 0 < x"
  shows "check_broken_extra m = []"
proof -
  from pos have "0 \<notin> set m" by auto
  then have "0 \<notin> fst ` set (ref_groups m)" using ref_groups_keys [of m] by simp
  then have z: "map_of (ref_groups m) 0 = None" by (simp add: map_of_eq_None_iff)
  have single: "\<not> (0 < r \<and> 1 < length ws)" if "(r, ws) \<in> set (ref_groups m)" for r ws
  proof -
    from that have "map_of (ref_groups m) r = Some ws" by (simp add: ref_groups_distinct)
    then have "ws = written_of m r"
      using ref_groups_lookup [of m r] by (simp add: group_lookup_def)
    with duplicate_group_not_distinct [of m r] d show ?thesis by auto
  qed
  show ?thesis
    unfolding check_broken_extra_def Let_def z
    using single by (auto split: if_splits)
qed

lemma concat_map_empty: "(\<And>x. x \<in> set xs \<Longrightarrow> f x = []) \<Longrightarrow> concat (map f xs) = []"
  by (induction xs) auto

lemma check_missing_identity: "check_missing (identity_assignment n) n = []"
proof -
  let ?m = "identity_assignment n"
  have mem: "int i \<in> set (map (\<lambda>r. r - 1) (filter (\<lambda>r. r > 0) ?m))"
    if "i < n" for i
  proof -
    from that have "Suc i \<in> set [1..<Suc n]" by (simp del: upt_Suc)
    then have "int (Suc i) \<in> set ?m" unfolding identity_assignment_def set_map by (rule imageI)
    then have "int (Suc i) \<in> set (filter (\<lambda>r. r > 0) ?m)" by simp
    then have "int (Suc i) - 1 \<in> (\<lambda>r. r - 1) ` set (filter (\<lambda>r. r > 0) ?m)"
      by (rule imageI)
    then show ?thesis by (simp del: set_filter)
  qed
  show ?thesis
    unfolding check_missing_def Let_def
  proof (rule concat_map_empty)
    fix x assume "x \<in> set [0..<n]"
    then have "x < n" by simp
    from mem [OF this]
    show "(if int x \<notin> set (map (\<lambda>ref_idx. ref_idx - 1) (filter (\<lambda>ref_idx. ref_idx > 0) ?m))
           then [\<lparr>err_type = MISSING, written_indices = None,
                  reference_index = Some (int x),
                  angle_diff_degrees = None, expected_position = None\<rparr>]
           else []) = []"
      by (simp del: set_filter set_map)
  qed
qed

lemma angle_distance_self: "angle_distance a a = 0"
  by (simp add: angle_distance_def)

lemma orientation_loop_identity:
  assumes "0 \<le> th"
  shows "k + j = length fs \<Longrightarrow>
         orientation_loop th fs fs k (map int [Suc k..<Suc (k + j)]) = Inr []"
proof (induction j arbitrary: k)
  case 0
  then show ?case by simp
next
  case (Suc j)
  have l: "[Suc k..<Suc (k + Suc j)] = Suc k # [Suc (Suc k)..<Suc (Suc k + j)]"
    by (simp add: upt_conv_Cons)
  from Suc.prems have k: "k < length fs" and k': "Suc k + j = length fs" by simp_all
  from k have g: "py_get fs (int (Suc k) - 1) = Inr (fs ! k)" by (simp add: py_get_def)
  from Suc.IH [OF k'] k g assms show ?case
    unfolding l by (simp add: angle_distance_self Let_def)
qed

lemma order_loop_identity: "order_loop k (map int [Suc k..<Suc (k + j)]) = []"
proof (induction j arbitrary: k)
  case 0
  then show ?case by simp
next
  case (Suc j)
  have l: "[Suc k..<Suc (k + Suc j)] = Suc k # [Suc (Suc k)..<Suc (Suc k + j)]"
    by (simp add: upt_conv_Cons)
  from Suc.IH [of "Suc k"] show ?case unfolding l by simp
qed

lemma detect_errors_identity:
  assumes "0 \<le> th"
  shows "detect_errors th (identity_assignment (length fs)) fs fs = Inr []"
proof -
  let ?m = "identity_assignment (length fs)"
  have m: "?m = map int [Suc 0..<Suc (0 + length fs)]" by (simp add: identity_assignment_def)
  have d: "distinct ?m" unfolding identity_assignment_def by (simp add: distinct_map del: upt_Suc)
  have p: "\<forall>x\<in>set ?m. 0 < x" unfolding identity_assignment_def by (auto simp del: upt_Suc)
  from orientation_loop_identity [OF assms, of 0 "length fs" fs]
  have o: "orientation_loop th fs fs 0 ?m = Inr []" unfolding m by simp
  from order_loop_identity [of 0 "length fs"] have r: "order_loop 0 ?m = []" unfolding m .
  show ?thesis
    unfolding detect_errors_def check_orientation_def o check_order_def r
      check_concatenated_redundant_def check_broken_extra_distinct [OF d p]
      check_missing_identity
    by simp
qed

lemma pair_distance_self: "pair_distance ff t t f f = 0"
  by (simp add: pair_distance_def Let_def vsub_def norm2_def angle_distance_self)

section \<open>A best chromosome of fitness 1 stays\<close>

lemma generation_keeps_best:
  assumes ok: "ga_ok ga wfs rfs" and inv: "ga_inv ga wfs rfs s"
    and best: "best_chromosome s = Some c" "best_fitness s = 1"
    and gen: "generation ga wfs rfs s = Inr r"
  shows "\<exists>s'. (r = Break s' \<or> r = Continue s')
            \<and> best_chromosome s' = Some c \<and> best_fitness s' = 1"
proof -
  from gen obtain fits gb s2 where
    ev: "evaluate_all ga (population s) wfs rfs = Inr fits" and ne: "fits \<noteq> []"
    and gb: "gb = Max (set fits)"
    and bf2: "best_fitness s2 = max (best_fitness s) gb"
    and bc2: "best_chromosome s2 = (if gb > best_fitness s
                           then Some (population s ! py_index fits gb) else best_chromosome s)"
    and r: "(r = Break s2 \<and> generations_without_improvement s2 \<ge> convergence_generations ga)
     \<or> (\<exists>bc newp g'. generations_without_improvement s2 < convergence_generations ga
           \<and> best_chromosome s2 = Some bc
           \<and> breed ga (population s) fits [bc] (rng_state s) = Inr (newp, g')
           \<and> r = Continue (s2\<lparr>population := py_slice_to newp (population_size ga),
                               rng_state := g'\<rparr>))"
    by (rule generation_cases) blast
  from inv have val: "\<forall>c\<in>set (population s).
      valid_chromosome (n_written ga) (n_reference ga) c"
    by (simp add: ga_inv_def list_all_iff)
  from evaluate_all_Inr [OF ev] have fl: "length fits = length (population s)"
    and fe: "\<And>i. i < length (population s) \<Longrightarrow>
               evaluate_chromosome ga (population s ! i) wfs rfs = Inr (fits ! i)"
    by simp_all
  have le: "x \<le> 1" if "x \<in> set fits" for x
  proof -
    from that obtain i where i: "i < length fits" "fits ! i = x" by (auto simp: in_set_conv_nth)
    with fl have "population s ! i \<in> set (population s)" by simp
    with val evaluate_chromosome_ok [OF ok, of "population s ! i"] fe [of i] i fl
    show ?thesis by auto
  qed
  have "gb \<in> set fits" unfolding gb using ne by (intro Max_in) simp_all
  then have "gb \<le> 1" by (rule le)
  with best bf2 bc2 have "best_chromosome s2 = Some c" "best_fitness s2 = 1"
    by (simp_all add: max_def)
  with r show ?thesis by auto
qed

lemma evolve_loop_keeps_best:
  assumes ok: "ga_ok ga wfs rfs"
  shows "ga_inv ga wfs rfs s \<Longrightarrow> best_chromosome s = Some c \<Longrightarrow> best_fitness s = 1 \<Longrightarrow>
         evolve_loop ga wfs rfs k s = Inr s' \<Longrightarrow> best_chromosome s' = Some c"
proof (induction k arbitrary: s)
  case 0
  then show ?case by simp
next
  case (Suc k)
  from Suc.prems(4) obtain r where g: "generation ga wfs rfs s = Inr r"
    by (auto split: sum.splits)
  from generation_keeps_best [OF ok Suc.prems(1,2,3) g] obtain s1 where
    r: "r = Break s1 \<or> r = Continue s1"
    and b: "best_chromosome s1 = Some c" "best_fitness s1 = 1" by blast
  from r show ?case
  proof
    assume "r = Break s1"
    with g Suc.prems(4) b show ?thesis by simp
  next
    assume c: "r = Continue s1"
    with generation_inv [OF Suc.prems(1) g] have "ga_inv ga wfs rfs s1" by simp
    from Suc.IH [OF this b] g c Suc.prems(4) show ?thesis by simp
  qed
qed

lemma generation_first_best:
  assumes inv: "ga_inv ga wfs rfs s"
    and none: "best_fitness s = 0"
    and same: "\<forall>c\<in>set (population s). c = c0"
    and one: "evaluate_chromosome ga c0 wfs rfs = Inr 1"
    and gen: "generation ga wfs rfs s = Inr r"
  shows "\<exists>s'. (r = Break s' \<or> r = Continue s')
            \<and> best_chromosome s' = Some c0 \<and> best_fitness s' = 1"
proof -
  from gen obtain fits gb s2 where
    ev: "evaluate_all ga (population s) wfs rfs = Inr fits" and ne: "fits \<noteq> []"
    and gb: "gb = Max (set fits)"
    and bf2: "best_fitness s2 = max (best_fitness s) gb"
    and bc2: "best_chromosome s2 = (if gb > best_fitness s
                           then Some (population s ! py_index fits gb) else best_chromosome s)"
    and r: "(r = Break s2 \<and> generations_without_improvement s2 \<ge> convergence_generations ga)
     \<or> (\<exists>bc newp g'. generations_without_improvement s2 < convergence_generations ga
           \<and> best_chromosome s2 = Some bc
           \<and> breed ga (population s) fits [bc] (rng_state s) = Inr (newp, g')
           \<and> r = Continue (s2\<lparr>population := py_slice_to newp (population_size ga),
                               rng_state := g'\<rparr>))"
    by (rule generation_cases) blast
  from evaluate_all_Inr [OF ev] have fl: "length fits = length (population s)"
    and fe: "\<And>i. i < length (population s) \<Longrightarrow>
               evaluate_chromosome ga (population s ! i) wfs rfs = Inr (fits ! i)"
    by simp_all
  have all1: "x = 1" if "x \<in> set fits" for x
  proof -
    from that obtain i where i: "i < length fits" "fits ! i = x" by (auto simp: in_set_conv_nth)
    with fl same have "population s ! i = c0" by simp
    with fe [of i] i fl one show ?thesis by simp
  qed
  have gbin: "gb \<in> set fits" unfolding gb using ne by (intro Max_in) simp_all
  then have gb1: "gb = 1" by (rule all1)
  from py_index_found [OF gbin] fl same have "population s ! py_index fits gb = c0" by simp
  with gb1 none bf2 bc2 have "best_chromosome s2 = Some c0" "best_fitness s2 = 1"
    by simp_all
  with r show ?thesis by auto
qed

lemma evolve_uniform_start:
  assumes ok: "ga_ok ga wfs rfs"
    and cp: "\<And>pop g1. create_population ga (nat (population_size ga)) g = Inr (pop, g1)
               \<Longrightarrow> \<forall>c\<in>set pop. c = c0"
    and one: "evaluate_chromosome ga c0 wfs rfs = Inr 1"
    and mg: "1 \<le> max_generations ga"
    and ev: "evolve ga wfs rfs g = Inr res"
  shows "mapping res = Some c0"
proof -
  from ev obtain pop g1 s where
    c: "create_population ga (nat (population_size ga)) g = Inr (pop, g1)"
    and lp: "evolve_loop ga wfs rfs (nat (max_generations ga))
                 \<lparr>population = pop, best_chromosome = None, best_fitness = 0,
                  generations_without_improvement = 0, best_fitness_history = [],
                  avg_fitness_history = [], rng_state = g1\<rparr> = Inr s"
    and res: "mapping res = best_chromosome s"
    by (auto simp: evolve_def split: sum.splits prod.splits)
  let ?s0 = "\<lparr>population = pop, best_chromosome = None, best_fitness = 0,
              generations_without_improvement = 0, best_fitness_history = [],
              avg_fitness_history = [], rng_state = g1\<rparr>"
  from mg obtain k where k: "nat (max_generations ga) = Suc k"
    by (cases "nat (max_generations ga)") auto
  from lp k obtain r where g: "generation ga wfs rfs ?s0 = Inr r"
    by (auto split: sum.splits)
  have inv0: "ga_inv ga wfs rfs ?s0" by (rule ga_inv_initial [OF c])
  from cp [OF c] have same: "\<forall>c\<in>set (population ?s0). c = c0" by simp
  from generation_first_best [OF inv0 _ same one g] obtain s1 where
    r: "r = Break s1 \<or> r = Continue s1"
    and b: "best_chromosome s1 = Some c0" "best_fitness s1 = 1" by auto
  from r have "best_chromosome s = Some c0"
  proof
    assume "r = Break s1"
    with g lp k b show ?thesis by simp
  next
    assume cn: "r = Continue s1"
    with generation_inv [OF inv0 g] have "ga_inv ga wfs rfs s1" by simp
    from evolve_loop_keeps_best [OF ok this b, of k s] g cn lp k show ?thesis by simp
  qed
  with res show ?thesis by simp
qed

section \<open>A constant random stream\<close>

lemma next_raw_const: "next_raw (\<lambda>n. k) = (k, \<lambda>n. k)"
  by (simp add: next_raw_def)

lemma random_sample_const:
  "random_sample (\<lambda>n. k) = (real (k mod 2 ^ 53) / 2 ^ 53, \<lambda>n. k)"
  by (simp add: random_sample_def next_raw_const)

lemma rk_interval_const: "rk_interval m (\<lambda>n. k) = (k mod Suc m, \<lambda>n. k)"
  by (simp add: rk_interval_def next_raw_const)

lemma randint_const: "randint lo hi (\<lambda>n. k) = Inr (v, g') \<Longrightarrow> g' = (\<lambda>n. k)"
  by (auto simp: randint_def next_raw_const split: if_splits)

lemma shuffle_from_const: "snd (shuffle_from i xs (\<lambda>n. k)) = (\<lambda>n. k)"
  by (induction i arbitrary: xs) (simp_all add: rk_interval_const)

lemma choice_const: "choice n sz (\<lambda>n. k) = Inr (idxs, g') \<Longrightarrow> g' = (\<lambda>n. k)"
  using shuffle_from_const [of "n - 1" "[0..<n]" k]
  by (auto simp: choice_def shuffle_def split: if_splits prod.splits)

lemma tournament_selection_const:
  "tournament_selection ga pop fitnesses (\<lambda>n. k) = Inr (p, g') \<Longrightarrow> g' = (\<lambda>n. k)"
  by (auto simp: tournament_selection_def split: sum.splits list.splits dest: choice_const)

lemma crossover_same:
  assumes "crossover ga c c g = Inr ((c1, c2), g')"
  shows "c1 = c \<and> c2 = c"
  using assms
  by (auto simp: crossover_def Let_def split: if_splits prod.splits sum.splits)

lemma crossover_const:
  "crossover ga p1 p2 (\<lambda>n. k) = Inr ((c1, c2), g') \<Longrightarrow> g' = (\<lambda>n. k)"
  by (auto simp: crossover_def Let_def random_sample_const
      split: if_splits sum.splits dest: randint_const)

lemma mutate_const:
  assumes "mutation_rate ga \<le> real (k mod 2 ^ 53) / 2 ^ 53"
  shows "mutate ga c (\<lambda>n. k) = Inr (c, \<lambda>n. k)"
  using assms by (induction c) (simp_all add: random_sample_const)

lemma breed_pair_const:
  assumes rate: "mutation_rate ga \<le> real (k mod 2 ^ 53) / 2 ^ 53"
    and pop: "\<forall>x\<in>set pop. x = c"
    and bp: "breed_pair ga pop fitnesses (\<lambda>n. k) = Inr ((c1, c2), g')"
  shows "c1 = c \<and> c2 = c \<and> g' = (\<lambda>n. k)"
proof -
  from bp obtain p1 g1 p2 g2 d1 d2 g3 g4 where
    t1: "tournament_selection ga pop fitnesses (\<lambda>n. k) = Inr (p1, g1)"
    and t2: "tournament_selection ga pop fitnesses g1 = Inr (p2, g2)"
    and x: "crossover ga p1 p2 g2 = Inr ((d1, d2), g3)"
    and m1: "mutate ga d1 g3 = Inr (c1, g4)"
    and m2: "mutate ga d2 g4 = Inr (c2, g')"
    by (auto simp: breed_pair_def split: sum.splits prod.splits)
  from tournament_selection_const [OF t1] have g1: "g1 = (\<lambda>n. k)" .
  from tournament_selection_const [OF t2 [unfolded g1]] have g2: "g2 = (\<lambda>n. k)" .
  from tournament_selection_mem [OF t1] tournament_selection_mem [OF t2] pop
  have p: "p1 = c" "p2 = c" by blast+
  from crossover_same [OF x [unfolded p]] have d: "d1 = c" "d2 = c" by simp_all
  from crossover_const [OF x [unfolded g2]] have g3: "g3 = (\<lambda>n. k)" .
  from m1 mutate_const [OF rate, of c] have c1: "c1 = c" "g4 = (\<lambda>n. k)"
    by (simp_all add: d g3)
  from m2 mutate_const [OF rate, of c] have c2: "c2 = c" "g' = (\<lambda>n. k)"
    by (simp_all add: d c1)
  from c1 c2 show ?thesis by simp
qed

lemma breed_const:
  "breed ga pop fitnesses new g = Inr (res, g') \<Longrightarrow> g = (\<lambda>n. k) \<Longrightarrow>
   mutation_rate ga \<le> real (k mod 2 ^ 53) / 2 ^ 53 \<Longrightarrow>
   \<forall>x\<in>set pop. x = c \<Longrightarrow> \<forall>x\<in>set new. x = c \<Longrightarrow>
     (\<forall>x\<in>set res. x = c) \<and> g' = (\<lambda>n. k)"
proof (induction ga pop fitnesses new g arbitrary: res rule: breed.induct)
  case (1 ga pop fitnesses new g)
  show ?case
  proof (cases "int (length new) < population_size ga")
    case False
    with 1(2,3,6) show ?thesis by (simp add: breed.simps)
  next
    case True
    with 1(2) obtain c1 c2 g1 where
      bp: "breed_pair ga pop fitnesses g = Inr ((c1, c2), g1)"
      and b: "breed ga pop fitnesses (new @ [c1, c2]) g1 = Inr (res, g')"
      by (subst (asm) breed.simps) (auto split: sum.splits prod.splits)
    from breed_pair_const [OF 1(4,5) bp [unfolded 1(3)]]
    have c: "c1 = c" "c2 = c" "g1 = (\<lambda>n. k)" by simp_all
    from 1(6) c have "\<forall>x\<in>set (new @ [c1, c2]). x = c" by simp
    from 1(1) [OF True bp refl refl b c(3) 1(4,5) this] show ?thesis .
  qed
qed

lemma generation_const:
  assumes rate: "mutation_rate ga \<le> real (k mod 2 ^ 53) / 2 ^ 53"
    and pop: "\<forall>x\<in>set (population s). x = c"
    and rng: "rng_state s = (\<lambda>n. k)"
    and best: "\<forall>bc. best_chromosome s = Some bc \<longrightarrow> bc = c"
    and gen: "generation ga wfs rfs s = Inr r"
  shows "\<exists>s'. (r = Break s' \<or> r = Continue s')
            \<and> (\<forall>x\<in>set (population s'). x = c) \<and> rng_state s' = (\<lambda>n. k)
            \<and> (\<forall>bc. best_chromosome s' = Some bc \<longrightarrow> bc = c)"
proof -
  from gen obtain fits gb s2 where
    ev: "evaluate_all ga (population s) wfs rfs = Inr fits" and ne: "fits \<noteq> []"
    and gb: "gb = Max (set fits)"
    and bc2: "best_chromosome s2 = (if gb > best_fitness s
                           then Some (population s ! py_index fits gb) else best_chromosome s)"
    and p2: "population s2 = population s" and r2: "rng_state s2 = rng_state s"
    and r: "(r = Break s2 \<and> generations_without_improvement s2 \<ge> convergence_generations ga)
     \<or> (\<exists>bc newp g'. generations_without_improvement s2 < convergence_generations ga
           \<and> best_chromosome s2 = Some bc
           \<and> breed ga (population s) fits [bc] (rng_state s) = Inr (newp, g')
           \<and> r = Continue (s2\<lparr>population := py_slice_to newp (population_size ga),
                               rng_state := g'\<rparr>))"
    by (rule generation_cases) blast
  from evaluate_all_Inr [OF ev] have fl: "length fits = length (population s)" by simp
  have "gb \<in> set fits" unfolding gb using ne by (intro Max_in) simp_all
  from py_index_found [OF this] fl pop have "population s ! py_index fits gb = c" by simp
  with best bc2 have best2: "\<forall>bc. best_chromosome s2 = Some bc \<longrightarrow> bc = c" by simp
  from r show ?thesis
  proof (elim disjE conjE exE)
    assume "r = Break s2"
    with best2 pop p2 rng r2 show ?thesis by simp
  next
    fix bc newp g'
    assume bc: "best_chromosome s2 = Some bc"
      and br: "breed ga (population s) fits [bc] (rng_state s) = Inr (newp, g')"
      and rc: "r = Continue (s2\<lparr>population := py_slice_to newp (population_size ga),
                               rng_state := g'\<rparr>)"
    from best2 bc have "\<forall>x\<in>set [bc]. x = c" by simp
    from breed_const [OF br rng rate pop this] have n: "\<forall>x\<in>set newp. x = c" "g' = (\<lambda>n. k)"
      by simp_all
    have "set (py_slice_to newp (population_size ga)) \<subseteq> set newp"
      by (auto simp: py_slice_to_def dest: in_set_takeD)
    with n best2 show ?thesis by (auto simp: rc)
  qed
qed

lemma evolve_loop_const:
  assumes rate: "mutation_rate ga \<le> real (k mod 2 ^ 53) / 2 ^ 53"
  shows "\<forall>x\<in>set (population s). x = c \<Longrightarrow> rng_state s = (\<lambda>n. k) \<Longrightarrow>
         \<forall>bc. best_chromosome s = Some bc \<longrightarrow> bc = c \<Longrightarrow>
         evolve_loop ga wfs rfs j s = Inr s' \<Longrightarrow>
         \<forall>bc. best_chromosome s' = Some bc \<longrightarrow> bc = c"
proof (induction j arbitrary: s)
  case 0
  then show ?case by simp
next
  case (Suc j)
  from Suc.prems(4) obtain r where g: "generation ga wfs rfs s = Inr r"
    by (auto split: sum.splits)
  from generation_const [OF rate Suc.prems(1,2,3) g] obtain s1 where
    r: "r = Break s1 \<or> r = Continue s1"
    and s1: "\<forall>x\<in>set (population s1). x = c" "rng_state s1 = (\<lambda>n. k)"
      "\<forall>bc. best_chromosome s1 = Some bc \<longrightarrow> bc = c"
    by blast
  from r show ?case
  proof
    assume "r = Break s1"
    with g Suc.prems(4) s1 show ?thesis by simp
  next
    assume "r = Continue s1"
    with g Suc.prems(4) have "evolve_loop ga wfs rfs j s1 = Inr s'" by simp
    from Suc.IH [OF s1 this] show ?thesis .
  qed
qed

lemma create_population_const:
  assumes "create_chromosome ga (\<lambda>n. k) = Inr (c, \<lambda>n. k)"
  shows "create_population ga n (\<lambda>n. k) = Inr (replicate n c, \<lambda>n. k)"
  using assms by (induction n) simp_all

lemma evolve_const:
  assumes rate: "mutation_rate ga \<le> real (k mod 2 ^ 53) / 2 ^ 53"
    and cc: "create_chromosome ga (\<lambda>n. k) = Inr (c, \<lambda>n. k)"
    and ev: "evolve ga wfs rfs (\<lambda>n. k) = Inr res" and m: "mapping res = Some m"
  shows "m = c"
proof -
  let ?s0 = "\<lparr>population = replicate (nat (population_size ga)) c, best_chromosome = None,
              best_fitness = 0, generations_without_improvement = 0,
              best_fitness_history = [], avg_fitness_history = [], rng_state = (\<lambda>n. k)\<rparr>"
  from ev obtain s where
    lp: "evolve_loop ga wfs rfs (nat (max_generations ga)) ?s0 = Inr s"
    and res: "mapping res = best_chromosome s"
    by (auto simp: evolve_def create_population_const [OF cc] split: sum.splits)
  have "\<forall>bc. best_chromosome s = Some bc \<longrightarrow> bc = c"
    by (rule evolve_loop_const [OF rate _ _ _ lp]) simp_all
  with res m show ?thesis by simp
qed

lemma create_population_all:
  assumes "\<And>g c g'. create_chromosome ga g = Inr (c, g') \<Longrightarrow> c = c0"
  shows "create_population ga n g = Inr (pop, g1) \<Longrightarrow> \<forall>c\<in>set pop. c = c0"
proof (induction n arbitrary: g pop)
  case 0
  then show ?case by simp
next
  case (Suc n)
  then obtain c g2 cs where c: "create_chromosome ga g = Inr (c, g2)"
    and cs: "create_population ga n g2 = Inr (cs, g1)" and pop: "pop = c # cs"
    by (auto split: sum.splits prod.splits)
  from assms [OF c] Suc.IH [OF cs] show ?case by (simp add: pop)
qed

section \<open>Matching a character against itself\<close>

lemma create_chromosome_single:
  assumes "n_written ga = 1" and "n_reference ga = 1"
    and "create_chromosome ga g = Inr (c, g')"
  shows "c = [1]"
  using assms by (simp add: create_chromosome_def shuffle_def upt_conv_Cons)

lemma evaluate_single_identity:
  "evaluate_chromosome ga [1] [f] [f] = Inr 1"
  by (simp add: evaluate_chromosome_def compute_distance_def py_get_def pair_distance_self
        compute_fitness_def)

lemma match_single_stroke:
  assumes ok: "stroke_ok s"
  shows "\<exists>res. match default_matcher [s] [s] g = Inr res
            \<and> mapping res = Some [1] \<and> errors res = []"
proof -
  from ok have "list_all stroke_ok ([s] @ [s])" by simp
  from match_default_ok [OF _ this, of g] obtain res where
    m: "match default_matcher [s] [s] g = Inr res" by auto
  define ga where "ga = GeneticAlgorithm_init (length [s]) (length [s])
                   (sm_fitness_func default_matcher) (sm_population_size default_matcher)
                   (sm_max_generations default_matcher) (8 / 10) (1 / 10) 3 10"
  from m obtain wfs rfs ga_res mp where
    l: "length wfs = length [s]" "length rfs = length [s]"
    and ang: "list_all (\<lambda>f. \<bar>angle f\<bar> \<le> pi) (wfs @ rfs)"
    and same: "[s] = [s] \<longrightarrow> wfs = rfs"
    and ev: "evolve ga wfs rfs g = Inr ga_res"
    and mp: "mapping ga_res = Some mp" "mapping res = Some mp"
    and de: "detect_errors (sm_angle_threshold default_matcher) mp wfs rfs = Inr (errors res)"
    unfolding ga_def by (rule match_Inr)
  from same have eq: "wfs = rfs" by simp
  from l obtain f where rfs: "rfs = [f]" by (cases rfs) auto
  have gaf: "n_written ga = 1" "n_reference ga = 1" "max_generations ga = 100"
    "fitness_func ga = \<lparr>alpha = 1, beta = 1, gamma = 1, epsilon = 1\<rparr>"
    by (simp_all add: ga_def GeneticAlgorithm_init_def default_matcher_def StrokeMatcher_init_def)
  have gok: "ga_ok ga [f] [f]" using ang by (simp add: ga_ok_def gaf eq rfs)
  have cp: "\<forall>c\<in>set pop. c = [1]"
    if "create_population ga (nat (population_size ga)) g = Inr (pop, g1)" for pop g1
    using create_chromosome_single [OF gaf(1,2)] that by (rule create_population_all)
  from evolve_uniform_start [OF gok cp evaluate_single_identity _ ev [unfolded eq rfs]] mp
  have mp1: "mp = [1]" by (simp add: gaf)
  have th: "sm_angle_threshold default_matcher = pi / 4"
    by (simp add: default_matcher_def StrokeMatcher_init_def)
  have "detect_errors (pi / 4) (identity_assignment (length [f])) [f] [f] = Inr []"
    by (rule detect_errors_identity) simp
  then have "detect_errors (pi / 4) [1] [f] [f] = Inr []"
    by (simp add: identity_assignment_def)
  with de have "errors res = []" by (simp add: th mp1 eq rfs)
  with m mp mp1 show ?thesis by simp
qed

lemma match_identity_no_errors:
  assumes m: "match sm reference reference g = Inr res"
    and idm: "mapping res = Some (identity_assignment (length reference))"
    and th: "0 \<le> sm_angle_threshold sm"
  shows "errors res = []"
proof -
  from m obtain wfs rfs mp where
    l: "length rfs = length reference"
    and same: "reference = reference \<longrightarrow> wfs = rfs"
    and mp: "mapping res = Some mp"
    and de: "detect_errors (sm_angle_threshold sm) mp wfs rfs = Inr (errors res)"
    by (rule match_Inr)
  from same have eq: "wfs = rfs" by simp
  from mp idm l have "mp = identity_assignment (length rfs)" by simp
  with de detect_errors_identity [OF th, of rfs] show ?thesis by (simp add: eq)
qed

text \<open>
  Claim C1, as far as it holds. With a single reference stroke, of two rows or more and
  one point or more, whose coordinates are in the range of the double arithmetic,
  \<^verbatim>\<open>match\<close> of the stroke list against itself returns the assignment \<open>[1]\<close> and no
  error, whatever the random draws. With more strokes the assignment depends on the
  draws; whenever \<^verbatim>\<open>match\<close> of a list against itself returns the identity assignment
  (and the angle threshold is not negative), the error list is empty.
\<close>

theorem identity_match:
  "(stroke_ok s \<and> double_range [s] \<longrightarrow>
      (\<exists>res. match default_matcher [s] [s] g = Inr res
          \<and> mapping res = Some [1] \<and> errors res = []))
   \<and> (match sm reference reference g = Inr res
        \<and> mapping res = Some (identity_assignment (length reference))
        \<and> 0 \<le> sm_angle_threshold sm \<longrightarrow> errors res = [])"
proof -
  have A: "stroke_ok s \<and> double_range [s] \<longrightarrow>
      (\<exists>res. match default_matcher [s] [s] g = Inr res
          \<and> mapping res = Some [1] \<and> errors res = [])"
    by (rule impI, erule conjE, erule match_single_stroke)
  have B: "match sm reference reference g = Inr res
        \<and> mapping res = Some (identity_assignment (length reference))
        \<and> 0 \<le> sm_angle_threshold sm \<longrightarrow> errors res = []"
    by (rule impI, elim conjE, erule (2) match_identity_no_errors)
  show ?thesis by (rule conjI [OF A B])
qed

theorem identity_match_witness:
  "stroke_ok [[0, 100], [50, 50]] \<and> double_range [[[0, 100], [50, 50]]]
   \<and> (\<exists>res. match default_matcher [[[0, 100], [50, 50]]] [[[0, 100], [50, 50]]] (\<lambda>n. 0) = Inr res
          \<and> mapping res = Some (identity_assignment (length [[[0, 100], [50, 50::real]]]))
          \<and> 0 \<le> sm_angle_threshold default_matcher
          \<and> errors res = [])"
proof -
  have ok: "stroke_ok [[0, 100], [50, 50]] \<and> double_range [[[0, 100], [50, 50]]]"
    by (simp add: stroke_ok_def double_range_def)
  from mp [OF identity_match [THEN conjunct1] ok, of "\<lambda>n. 0"] obtain res where
    m: "match default_matcher [[[0, 100], [50, 50]]] [[[0, 100], [50, 50]]] (\<lambda>n. 0) = Inr res"
    and mp1: "mapping res = Some [1]" by blast
  have idm: "mapping res = Some (identity_assignment (length [[[0, 100], [50, 50::real]]]))"
    by (simp add: mp1 identity_assignment_def)
  have th: "0 \<le> sm_angle_threshold default_matcher"
    by (simp add: default_matcher_def StrokeMatcher_init_def)
  have "errors res = []"
    by (rule mp [OF identity_match [where sm = default_matcher
          and reference = "[[[0, 100], [50, 50]]]" and g = "\<lambda>n. 0" and res = res,
          THEN conjunct2]])
       (intro conjI m idm th)
  with ok m idm th show ?thesis by blast
qed

text \<open>
  The claim as stated fails with two strokes. Under the stream whose every draw is
  \<open>2\<^sup>5\<^sup>3 - 2\<close>, every shuffle of \<open>[1, 2]\<close> gives \<open>[2, 1]\<close> and no gene mutates, so the
  whole population is \<open>[2, 1]\<close> in every generation and that is the assignment returned
  for two distinct horizontal strokes matched against themselves.
\<close>

theorem identity_match_counterexample:
  "map_sum id mapping
     (match default_matcher [[[0, 100], [0, 0]], [[0, 100], [100, 100]]]
        [[[0, 100], [0, 0]], [[0, 100], [100, 100]]] (\<lambda>n. 9007199254740990))
   = Inr (Some [2, 1])"
proof -
  let ?w = "[[[0, 100], [0, 0]], [[0, 100], [100, 100::real]]]"
  let ?g = "\<lambda>n::nat. 9007199254740990::nat"
  have "list_all stroke_ok (?w @ ?w)" by (simp add: stroke_ok_def)
  from match_default_ok [OF _ this, of ?g] obtain res where
    m: "match default_matcher ?w ?w ?g = Inr res" by auto
  define ga where "ga = GeneticAlgorithm_init (length ?w) (length ?w)
                   (sm_fitness_func default_matcher) (sm_population_size default_matcher)
                   (sm_max_generations default_matcher) (8 / 10) (1 / 10) 3 10"
  from m obtain wfs rfs ga_res mp where
    ev: "evolve ga wfs rfs ?g = Inr ga_res"
    and mp: "mapping ga_res = Some mp" "mapping res = Some mp"
    unfolding ga_def by (rule match_Inr)
  have rate: "mutation_rate ga \<le> real (9007199254740990 mod 2 ^ 53) / 2 ^ 53"
    by (simp add: ga_def GeneticAlgorithm_init_def)
  have e: "(9007199254740990::nat) mod Suc (Suc 0) = 0"
    unfolding numeral_2_eq_2 [symmetric] by simp
  have cc: "create_chromosome ga ?g = Inr ([2, 1], ?g)"
    by (simp add: ga_def GeneticAlgorithm_init_def create_chromosome_def shuffle_def
          rk_interval_const upt_conv_Cons e)
  from evolve_const [OF rate cc ev mp(1)] mp(2) m show ?thesis by simp
qed

section \<open>A reversed stroke in match\<close>
























end
